theory Spec2Isabelle
  imports Main
begin

section \<open>The page as the content script sees it\<close>

text \<open>
  The content script \<^verbatim>\<open>content.js\<close> keeps three module-level containers
  (\<^verbatim>\<open>elementData\<close>, \<^verbatim>\<open>trackedElements\<close>, \<^verbatim>\<open>activeTimeouts\<close>) and
  otherwise works on the DOM and on the timers of the window. DOM elements and the nodes
  the script creates are identified by numbers; a closure is identified by the number of
  its allocation together with the element it captured.

  Of an element of the page the script reads and writes the \<^verbatim>\<open>data-testid\<close>
  attribute, the class list and the event listeners. The nodes it creates itself
  (tooltip, feedback banner, the text area of the fallback copy) are the artifacts; their
  position on the screen (\<^verbatim>\<open>getBoundingClientRect\<close>, \<^verbatim>\<open>style.top\<close>,
  \<^verbatim>\<open>style.left\<close>) and the focus and selection of the text area take no part in any
  decision of the script and are left out.
\<close>

type_synonym elem = nat
type_synonym node = nat

datatype listener =
    MouseEnterHandler nat elem
  | MouseLeaveHandler nat elem
  | ClickHandler nat elem
  | TooltipClickHandler elem node
  | TooltipMouseEnter
  | TooltipMouseLeave node
  | HostListener nat

record element =
  testid :: "string option"
  classList :: "string list"
  listeners :: "(string \<times> listener) list"

record artifact =
  node :: node
  ident :: string
  className :: string
  innerText :: string
  nodeListeners :: "(string \<times> listener) list"

record handlers =
  mouseEnterHandler :: listener
  mouseLeaveHandler :: listener
  clickHandler :: listener

text \<open>Where the pointer is: \<^verbatim>\<open>tooltip.matches(':hover')\<close> asks whether it is over
  the tooltip.\<close>

datatype target = OverElement elem | OverArtifact node | Elsewhere

text \<open>The closures handed to \<^verbatim>\<open>setTimeout\<close>: \<^verbatim>\<open>later\<close> of \<^verbatim>\<open>debounce\<close> with
  the arguments it captured, the removal scheduled by the tooltip's \<^verbatim>\<open>mouseleave\<close>
  listener (it captures the tooltip), the removal scheduled by \<^verbatim>\<open>mouseLeaveHandler\<close>,
  and the removal scheduled by \<^verbatim>\<open>showCopyFeedback\<close> (it captures the feedback node and
  its own timer identifier).\<close>

datatype callback =
    Later "nat list"
  | TooltipLeaveTimer node
  | ElementLeaveTimer
  | FeedbackTimer node nat

text \<open>A log of the calls the script makes, in the order it makes them. Nothing in the
  script reads it; the statements below count attach, detach, copy and feedback calls
  on it.\<close>

datatype call =
    AddEventListener elem string listener
  | RemoveEventListener elem string listener
  | ClassListAdd elem string
  | ClassListRemove elem string
  | ElementDataSet elem
  | ElementDataDelete elem
  | TrackedAdd elem
  | TrackedDelete elem
  | ShowCopyFeedback elem string
  | FallbackCopy string
  | WriteText string
  | ExecCommandCopy
  | ConsoleError string

datatype error = TypeError | NotAllowedError | NotFoundError | ExecCommandError

text \<open>The timers of the window: identifier, due time and callback, in creation order.\<close>

record 'c window =
  pending :: "(nat \<times> nat \<times> 'c) list"
  nextTimer :: nat
  clock :: nat

text \<open>The closure variable \<^verbatim>\<open>timeout\<close> of one \<^verbatim>\<open>debounce\<close> instance.\<close>

record 'c debouncer = "'c window" +
  timeout :: "nat option"

text \<open>An async click handler suspended at \<^verbatim>\<open>await navigator.clipboard.writeText\<close>:
  the captured element, the identifier read at click time, and the tooltip when the
  handler is the tooltip's.\<close>

record frame =
  frameEl :: elem
  frameTestId :: string
  frameTooltip :: "node option"

record state = "callback debouncer" +
  elements :: "elem \<Rightarrow> element"
  document :: "elem list"
  body :: "artifact list"
  nextNode :: nat
  pointer :: target
  elementData :: "elem \<rightharpoonup> handlers"
  trackedElements :: "elem list"
  activeTimeouts :: "nat list"
  nextClosure :: nat
  observing :: bool
  suspended :: "frame list"
  calls :: "call list"

section \<open>Timers\<close>

definition setTimeout ::
  "'c \<Rightarrow> nat \<Rightarrow> ('c, 'z) window_scheme \<Rightarrow> nat \<times> ('c, 'z) window_scheme" where
  "setTimeout cb delay s =
     (nextTimer s,
      s\<lparr>pending := pending s @ [(nextTimer s, clock s + delay, cb)],
        nextTimer := Suc (nextTimer s)\<rparr>)"

definition clearTimeout ::
  "nat option \<Rightarrow> ('c, 'z) window_scheme \<Rightarrow> ('c, 'z) window_scheme" where
  "clearTimeout h s =
     (case h of
        None \<Rightarrow> s
      | Some i \<Rightarrow> s\<lparr>pending := filter (\<lambda>t. fst t \<noteq> i) (pending s)\<rparr>)"

section \<open>DOM and container primitives\<close>

definition truthy :: "string option \<Rightarrow> bool" where
  "truthy v = (case v of None \<Rightarrow> False | Some t \<Rightarrow> t \<noteq> [])"

definition update_element :: "elem \<Rightarrow> (element \<Rightarrow> element) \<Rightarrow> state \<Rightarrow> state" where
  "update_element el f s = s\<lparr>elements := (elements s)(el := f (elements s el))\<rparr>"

definition log :: "call \<Rightarrow> state \<Rightarrow> state" where
  "log c s = s\<lparr>calls := calls s @ [c]\<rparr>"

definition classList_contains :: "elem \<Rightarrow> string \<Rightarrow> state \<Rightarrow> bool" where
  "classList_contains el c s = (c \<in> set (classList (elements s el)))"

definition classList_add :: "elem \<Rightarrow> string \<Rightarrow> state \<Rightarrow> state" where
  "classList_add el c s =
     log (ClassListAdd el c)
       (update_element el
          (\<lambda>e. if c \<in> set (classList e) then e else e\<lparr>classList := classList e @ [c]\<rparr>) s)"

definition classList_remove :: "elem \<Rightarrow> string \<Rightarrow> state \<Rightarrow> state" where
  "classList_remove el c s =
     log (ClassListRemove el c)
       (update_element el (\<lambda>e. e\<lparr>classList := removeAll c (classList e)\<rparr>) s)"

definition addEventListener :: "elem \<Rightarrow> string \<Rightarrow> listener \<Rightarrow> state \<Rightarrow> state" where
  "addEventListener el ty l s =
     log (AddEventListener el ty l)
       (update_element el
          (\<lambda>e. if (ty, l) \<in> set (listeners e) then e
               else e\<lparr>listeners := listeners e @ [(ty, l)]\<rparr>) s)"

definition removeEventListener :: "elem \<Rightarrow> string \<Rightarrow> listener \<Rightarrow> state \<Rightarrow> state" where
  "removeEventListener el ty l s =
     log (RemoveEventListener el ty l)
       (update_element el (\<lambda>e. e\<lparr>listeners := removeAll (ty, l) (listeners e)\<rparr>) s)"

definition elementData_has :: "elem \<Rightarrow> state \<Rightarrow> bool" where
  "elementData_has el s = (elementData s el \<noteq> None)"

definition elementData_set :: "elem \<Rightarrow> handlers \<Rightarrow> state \<Rightarrow> state" where
  "elementData_set el h s = log (ElementDataSet el) (s\<lparr>elementData := (elementData s)(el \<mapsto> h)\<rparr>)"

definition elementData_delete :: "elem \<Rightarrow> state \<Rightarrow> state" where
  "elementData_delete el s =
     log (ElementDataDelete el) (s\<lparr>elementData := (elementData s)(el := None)\<rparr>)"

definition trackedElements_add :: "elem \<Rightarrow> state \<Rightarrow> state" where
  "trackedElements_add el s =
     log (TrackedAdd el)
       (s\<lparr>trackedElements :=
            (if el \<in> set (trackedElements s) then trackedElements s
             else trackedElements s @ [el])\<rparr>)"

definition trackedElements_delete :: "elem \<Rightarrow> state \<Rightarrow> state" where
  "trackedElements_delete el s =
     log (TrackedDelete el) (s\<lparr>trackedElements := removeAll el (trackedElements s)\<rparr>)"

section \<open>highlightElement, cleanupElement, scanAndHighlight\<close>

definition highlightElement :: "elem \<Rightarrow> state \<Rightarrow> state" where
  "highlightElement el s =
     (if \<not> truthy (testid (elements s el)) \<or> classList_contains el ''test-id-highlight'' s
      then s
      else if elementData_has el s then s
      else
        let s1 = classList_add el ''test-id-highlight'' s;
            k = nextClosure s1;
            s2 = s1\<lparr>nextClosure := Suc k\<rparr>;
            s3 = addEventListener el ''mouseenter'' (MouseEnterHandler k el) s2;
            s4 = addEventListener el ''mouseleave'' (MouseLeaveHandler k el) s3;
            s5 = addEventListener el ''click'' (ClickHandler k el) s4;
            s6 = elementData_set el
                   \<lparr>mouseEnterHandler = MouseEnterHandler k el,
                    mouseLeaveHandler = MouseLeaveHandler k el,
                    clickHandler = ClickHandler k el\<rparr> s5
        in trackedElements_add el s6)"

definition cleanupElement :: "elem \<Rightarrow> state \<Rightarrow> state" where
  "cleanupElement el s =
     (case elementData s el of
        None \<Rightarrow> s
      | Some h \<Rightarrow>
          let s1 = removeEventListener el ''mouseenter'' (mouseEnterHandler h) s;
              s2 = removeEventListener el ''mouseleave'' (mouseLeaveHandler h) s1;
              s3 = removeEventListener el ''click'' (clickHandler h) s2;
              s4 = classList_remove el ''test-id-highlight'' s3;
              s5 = elementData_delete el s4
          in trackedElements_delete el s5)"

text \<open>\<^verbatim>\<open>document.querySelectorAll('[data-testid]')\<close>: the elements of the document
  that have the attribute (also when its value is empty), in document order.\<close>

definition querySelectorAll_testid :: "state \<Rightarrow> elem list" where
  "querySelectorAll_testid s = filter (\<lambda>el. testid (elements s el) \<noteq> None) (document s)"

definition document_contains :: "elem \<Rightarrow> state \<Rightarrow> bool" where
  "document_contains el s = (el \<in> set (document s))"

text \<open>The second loop of \<^verbatim>\<open>scanAndHighlight\<close> iterates over the live set while
  \<^verbatim>\<open>cleanupElement\<close> deletes the element being visited; a JavaScript Set iterator then
  goes on to the remaining members, so every member at loop entry is visited once.\<close>

definition cleanup_step :: "elem list \<Rightarrow> elem \<Rightarrow> state \<Rightarrow> state" where
  "cleanup_step currentElements el s =
     (if el \<notin> set currentElements \<or> \<not> document_contains el s then cleanupElement el s else s)"

definition scanAndHighlight :: "state \<Rightarrow> state" where
  "scanAndHighlight s =
     (let els = querySelectorAll_testid s;
          currentElements = els;
          s1 = foldl (\<lambda>st el. highlightElement el st) s els
      in foldl (\<lambda>st el. cleanup_step currentElements el st) s1 (trackedElements s1))"

section \<open>debounce\<close>

text \<open>\<^verbatim>\<open>debounce(func, wait)\<close> returns \<^verbatim>\<open>executedFunction\<close>; the closure
  \<^verbatim>\<open>later\<close> it schedules captures the arguments of the call. The first parameter of
  \<open>executedFunction\<close> turns the captured arguments into the scheduled closure.\<close>

definition later ::
  "('a \<Rightarrow> ('c, 'z) debouncer_scheme \<Rightarrow> ('c, 'z) debouncer_scheme) \<Rightarrow> 'a \<Rightarrow>
   ('c, 'z) debouncer_scheme \<Rightarrow> ('c, 'z) debouncer_scheme" where
  "later func args s = func args (clearTimeout (timeout s) s)"

definition executedFunction ::
  "('a \<Rightarrow> 'c) \<Rightarrow> nat \<Rightarrow> 'a \<Rightarrow> ('c, 'z) debouncer_scheme \<Rightarrow> ('c, 'z) debouncer_scheme" where
  "executedFunction mk_later wait args s =
     (let s1 = clearTimeout (timeout s) s;
          (i, s2) = setTimeout (mk_later args) wait s1
      in s2\<lparr>timeout := Some i\<rparr>)"

definition debouncedScanAndHighlight :: "nat list \<Rightarrow> state \<Rightarrow> state" where
  "debouncedScanAndHighlight = executedFunction Later 100"

section \<open>Tooltip and feedback artifacts\<close>

definition getElementById :: "string \<Rightarrow> state \<Rightarrow> artifact option" where
  "getElementById i s = find (\<lambda>a. ident a = i) (body s)"

definition attached :: "node \<Rightarrow> state \<Rightarrow> bool" where
  "attached n s = list_ex (\<lambda>a. node a = n) (body s)"

definition remove_node :: "node \<Rightarrow> state \<Rightarrow> state" where
  "remove_node n s = s\<lparr>body := filter (\<lambda>a. node a \<noteq> n) (body s)\<rparr>"

definition remove_by_id :: "string \<Rightarrow> state \<Rightarrow> state" where
  "remove_by_id i s = (case getElementById i s of None \<Rightarrow> s | Some a \<Rightarrow> remove_node (node a) s)"

definition appendChild :: "artifact \<Rightarrow> state \<Rightarrow> state" where
  "appendChild a s = s\<lparr>body := body s @ [a]\<rparr>"

definition removeChild :: "node \<Rightarrow> state \<Rightarrow> (error \<times> state) + state" where
  "removeChild n s = (if attached n s then Inr (remove_node n s) else Inl (NotFoundError, s))"

definition createElement :: "state \<Rightarrow> node \<times> state" where
  "createElement s = (nextNode s, s\<lparr>nextNode := Suc (nextNode s)\<rparr>)"

definition matches_hover :: "artifact \<Rightarrow> state \<Rightarrow> bool" where
  "matches_hover a s = (pointer s = OverArtifact (node a))"

definition console_error :: "string \<Rightarrow> state \<Rightarrow> state" where
  "console_error msg s = log (ConsoleError msg) s"

text \<open>\<^verbatim>\<open>activeTimeouts.forEach(id => { clearTimeout(id); activeTimeouts.delete(id) })\<close>\<close>

definition clear_and_delete :: "nat \<Rightarrow> state \<Rightarrow> state" where
  "clear_and_delete timeoutId s =
     (clearTimeout (Some timeoutId) s)\<lparr>activeTimeouts := removeAll timeoutId (activeTimeouts s)\<rparr>"

definition showCopyFeedback :: "elem \<Rightarrow> string \<Rightarrow> state \<Rightarrow> state" where
  "showCopyFeedback el testId s =
     (let s0 = log (ShowCopyFeedback el testId) s;
          s1 = remove_by_id ''__testid_copy_feedback__'' s0;
          s2 = foldl (\<lambda>st timeoutId. clear_and_delete timeoutId st) s1 (activeTimeouts s1);
          (n, s3) = createElement s2;
          feedback = \<lparr>node = n, ident = ''__testid_copy_feedback__'',
                      className = ''test-id-copy-feedback'',
                      innerText = ''Copied: '' @ testId, nodeListeners = []\<rparr>;
          s4 = appendChild feedback s3;
          (timeoutId, s5) = setTimeout (FeedbackTimer n (nextTimer s4)) 2000 s4
      in s5\<lparr>activeTimeouts :=
              (if timeoutId \<in> set (activeTimeouts s5) then activeTimeouts s5
               else activeTimeouts s5 @ [timeoutId])\<rparr>)"

section \<open>Clipboard\<close>

text \<open>What the environment answers: \<^verbatim>\<open>navigator.clipboard\<close> may be missing, so
  that the call throws at once, or \<^verbatim>\<open>writeText\<close> returns a promise that settles later;
  \<^verbatim>\<open>document.execCommand('copy')\<close> returns a boolean or throws.\<close>

datatype clip = ClipUnavailable | ClipPromise

datatype exec_result = ExecReturns bool | ExecThrows

definition writeText :: "string \<Rightarrow> clip \<Rightarrow> state \<Rightarrow> (error \<times> state) + state" where
  "writeText text c s =
     (case c of
        ClipUnavailable \<Rightarrow> Inl (TypeError, s)
      | ClipPromise \<Rightarrow> Inr (log (WriteText text) s))"

definition execCommand_copy :: "exec_result \<Rightarrow> state \<Rightarrow> (error \<times> state) + (bool \<times> state)" where
  "execCommand_copy ex s =
     (case ex of
        ExecThrows \<Rightarrow> Inl (ExecCommandError, s)
      | ExecReturns b \<Rightarrow> Inr (b, log ExecCommandCopy s))"

definition fallbackCopyTextToClipboard ::
  "string \<Rightarrow> exec_result \<Rightarrow> state \<Rightarrow> (error \<times> state) + state" where
  "fallbackCopyTextToClipboard text ex s =
     (let s0 = log (FallbackCopy text) s;
          (n, s1) = createElement s0;
          textArea = \<lparr>node = n, ident = [], className = [], innerText = text,
                      nodeListeners = []\<rparr>;
          s2 = appendChild textArea s1;
          s3 = (case execCommand_copy ex s2 of
                  Inr (b, s') \<Rightarrow> s'
                | Inl (err, s') \<Rightarrow> console_error ''Fallback: Oops, unable to copy'' s')
      in removeChild n s3)"

section \<open>The handlers installed by highlightElement\<close>

definition mouseEnterHandler_body :: "elem \<Rightarrow> state \<Rightarrow> state" where
  "mouseEnterHandler_body el s =
     (let s1 = remove_by_id ''__testid_tooltip__'' s;
          (n, s2) = createElement s1;
          tooltip = \<lparr>node = n, ident = ''__testid_tooltip__'', className = ''test-id-tooltip'',
                     innerText = (case testid (elements s2 el) of None \<Rightarrow> [] | Some t \<Rightarrow> t),
                     nodeListeners =
                       [(''click'', TooltipClickHandler el n),
                        (''mouseenter'', TooltipMouseEnter),
                        (''mouseleave'', TooltipMouseLeave n)]\<rparr>
      in appendChild tooltip s2)"

definition mouseLeaveHandler_body :: "state \<Rightarrow> state" where
  "mouseLeaveHandler_body s = snd (setTimeout ElementLeaveTimer 100 s)"

definition tooltipMouseLeave_body :: "node \<Rightarrow> state \<Rightarrow> state" where
  "tooltipMouseLeave_body n s = snd (setTimeout (TooltipLeaveTimer n) 100 s)"

text \<open>The \<^verbatim>\<open>catch\<close> block of both click handlers.\<close>

definition copy_catch :: "elem \<Rightarrow> string \<Rightarrow> exec_result \<Rightarrow> state \<Rightarrow> (error \<times> state) + state" where
  "copy_catch el testId ex s =
     (let s1 = console_error ''Failed to copy data-testid:'' s
      in case fallbackCopyTextToClipboard testId ex s1 of
           Inl e \<Rightarrow> Inl e
         | Inr s2 \<Rightarrow> Inr (showCopyFeedback el testId s2))"

text \<open>After the \<^verbatim>\<open>try\<close> statement the tooltip's handler removes the tooltip; the
  element's handler has nothing left to do.\<close>

definition copy_finish :: "node option \<Rightarrow> state \<Rightarrow> state" where
  "copy_finish tip s = (case tip of None \<Rightarrow> s | Some n \<Rightarrow> remove_node n s)"

text \<open>The handler up to its \<^verbatim>\<open>await\<close>: it returns at once when the identifier is
  missing or empty, runs the \<^verbatim>\<open>catch\<close> block when the call throws, and is otherwise
  suspended until the promise settles.\<close>

definition copy_start ::
  "elem \<Rightarrow> node option \<Rightarrow> clip \<Rightarrow> exec_result \<Rightarrow> state \<Rightarrow> (error \<times> state) + state" where
  "copy_start el tip c ex s =
     (case testid (elements s el) of
        None \<Rightarrow> Inr s
      | Some testId \<Rightarrow>
          if testId = [] then Inr s
          else
            (case writeText testId c s of
               Inl (err, s1) \<Rightarrow>
                 (case copy_catch el testId ex s1 of
                    Inl e \<Rightarrow> Inl e
                  | Inr s2 \<Rightarrow> Inr (copy_finish tip s2))
             | Inr s1 \<Rightarrow>
                 Inr (s1\<lparr>suspended := suspended s1 @
                        [\<lparr>frameEl = el, frameTestId = testId, frameTooltip = tip\<rparr>]\<rparr>)))"

text \<open>The handler from its \<^verbatim>\<open>await\<close> on, once the promise is resolved (\<open>None\<close>) or
  rejected.\<close>

definition copy_resume ::
  "frame \<Rightarrow> error option \<Rightarrow> exec_result \<Rightarrow> state \<Rightarrow> (error \<times> state) + state" where
  "copy_resume fr outcome ex s =
     (case (case outcome of
              None \<Rightarrow> Inr (showCopyFeedback (frameEl fr) (frameTestId fr) s)
            | Some err \<Rightarrow> copy_catch (frameEl fr) (frameTestId fr) ex s) of
        Inl e \<Rightarrow> Inl e
      | Inr s1 \<Rightarrow> Inr (copy_finish (frameTooltip fr) s1))"

definition clickHandler_body ::
  "elem \<Rightarrow> clip \<Rightarrow> exec_result \<Rightarrow> state \<Rightarrow> (error \<times> state) + state" where
  "clickHandler_body el = copy_start el None"

definition tooltipClickHandler_body ::
  "elem \<Rightarrow> node \<Rightarrow> clip \<Rightarrow> exec_result \<Rightarrow> state \<Rightarrow> (error \<times> state) + state" where
  "tooltipClickHandler_body el n = copy_start el (Some n)"

section \<open>Timer callbacks and the event loop\<close>

definition run_callback :: "callback \<Rightarrow> state \<Rightarrow> state" where
  "run_callback cb s =
     (case cb of
        Later args \<Rightarrow> later (\<lambda>args. scanAndHighlight) args s
      | TooltipLeaveTimer n \<Rightarrow> if attached n s then remove_node n s else s
      | ElementLeaveTimer \<Rightarrow>
          (case getElementById ''__testid_tooltip__'' s of
             None \<Rightarrow> s
           | Some tooltip \<Rightarrow>
               if \<not> matches_hover tooltip s then remove_node (node tooltip) s else s)
      | FeedbackTimer n timeoutId \<Rightarrow>
          (let s1 = (if attached n s then remove_node n s else s)
           in s1\<lparr>activeTimeouts := removeAll timeoutId (activeTimeouts s1)\<rparr>))"

text \<open>A pending timer fires once the clock has reached its due time. \<open>advance\<close> lets
  \<open>d\<close> milliseconds pass: the timers due by then fire in the order of their due times
  (creation order among equals), each unless it has been cleared meanwhile. No callback
  of this script creates a timer, so the timers due are those pending at the start.\<close>

definition fire ::
  "('c \<Rightarrow> ('c, 'z) window_scheme \<Rightarrow> ('c, 'z) window_scheme) \<Rightarrow> nat \<times> nat \<times> 'c \<Rightarrow>
   ('c, 'z) window_scheme \<Rightarrow> ('c, 'z) window_scheme" where
  "fire exec t s =
     (if t \<in> set (pending s)
      then exec (snd (snd t))
             (s\<lparr>pending := removeAll t (pending s), clock := max (clock s) (fst (snd t))\<rparr>)
      else s)"

definition due_timers :: "nat \<Rightarrow> ('c, 'z) window_scheme \<Rightarrow> (nat \<times> nat \<times> 'c) list" where
  "due_timers target s =
     sort_key (\<lambda>t. fst (snd t)) (filter (\<lambda>t. fst (snd t) \<le> target) (pending s))"

definition advance ::
  "('c \<Rightarrow> ('c, 'z) window_scheme \<Rightarrow> ('c, 'z) window_scheme) \<Rightarrow> nat \<Rightarrow>
   ('c, 'z) window_scheme \<Rightarrow> ('c, 'z) window_scheme" where
  "advance exec d s =
     (let target = clock s + d
      in (foldl (\<lambda>st t. fire exec t st) s (due_timers target s))\<lparr>clock := target\<rparr>)"

text \<open>A burst of calls of a debounced function: each call with its arguments, followed
  by the time that passes until the next call (or, after the last call, until the end of
  the observation). \<open>debounce_idle\<close>: no timer is pending except, possibly, the one of an
  earlier call of the same debounced function.\<close>

fun burst ::
  "('c \<Rightarrow> ('c, 'z) debouncer_scheme \<Rightarrow> ('c, 'z) debouncer_scheme) \<Rightarrow> ('a \<Rightarrow> 'c) \<Rightarrow> nat \<Rightarrow>
   ('a \<times> nat) list \<Rightarrow> ('c, 'z) debouncer_scheme \<Rightarrow> ('c, 'z) debouncer_scheme" where
  "burst exec mk_later wait [] s = s"
| "burst exec mk_later wait ((args, d) # rest) s =
     burst exec mk_later wait rest (advance exec d (executedFunction mk_later wait args s))"

definition debounce_idle :: "('c, 'z) debouncer_scheme \<Rightarrow> bool" where
  "debounce_idle s = (\<forall>t \<in> set (pending s). Some (fst t) = timeout s)"

section \<open>The mutation observer\<close>

text \<open>Of a node in a mutation record the callback reads whether it is an element, its
  \<^verbatim>\<open>dataset.testid\<close> and whether \<^verbatim>\<open>querySelector('[data-testid]')\<close> finds a
  descendant.\<close>

record mnode =
  isElementNode :: bool
  nodeTestid :: "string option"
  hasTestidDescendant :: bool

record mutation =
  addedNodes :: "mnode list"
  removedNodes :: "mnode list"
  mutationType :: string
  attributeName :: "string option"

definition relevant_node :: "mnode \<Rightarrow> bool" where
  "relevant_node n = (isElementNode n \<and> (truthy (nodeTestid n) \<or> hasTestidDescendant n))"

definition hasRelevantChanges :: "mutation list \<Rightarrow> bool" where
  "hasRelevantChanges mutations =
     list_ex (\<lambda>m. list_ex relevant_node (addedNodes m) \<or>
                   list_ex relevant_node (removedNodes m) \<or>
                   (mutationType m = ''attributes'' \<and> attributeName m = Some ''data-testid''))
       mutations"

definition observer_callback :: "mutation list \<Rightarrow> state \<Rightarrow> state" where
  "observer_callback mutations s =
     (if hasRelevantChanges mutations then debouncedScanAndHighlight [] s else s)"

section \<open>Teardown\<close>

definition beforeunload :: "state \<Rightarrow> state" where
  "beforeunload s =
     (let s1 = foldl (\<lambda>st el. cleanupElement el st) s (trackedElements s);
          s2 = foldl (\<lambda>st timeoutId. clearTimeout (Some timeoutId) st) s1 (activeTimeouts s1);
          s3 = s2\<lparr>activeTimeouts := []\<rparr>;
          s4 = s3\<lparr>observing := False\<rparr>;
          s5 = remove_by_id ''__testid_tooltip__'' s4
      in remove_by_id ''__testid_copy_feedback__'' s5)"

section \<open>Events of the page\<close>

text \<open>An exception that leaves an event listener is reported by the browser and the
  dispatch goes on; the state is the one at the throw.\<close>

definition uncaught :: "(error \<times> state) + state \<Rightarrow> state" where
  "uncaught r = (case r of Inl (err, s) \<Rightarrow> s | Inr s \<Rightarrow> s)"

definition run_listener :: "listener \<Rightarrow> clip \<Rightarrow> exec_result \<Rightarrow> state \<Rightarrow> state" where
  "run_listener l c ex s =
     (case l of
        MouseEnterHandler k el \<Rightarrow> mouseEnterHandler_body el s
      | MouseLeaveHandler k el \<Rightarrow> mouseLeaveHandler_body s
      | ClickHandler k el \<Rightarrow> uncaught (clickHandler_body el c ex s)
      | TooltipClickHandler el n \<Rightarrow> uncaught (tooltipClickHandler_body el n c ex s)
      | TooltipMouseEnter \<Rightarrow> s
      | TooltipMouseLeave n \<Rightarrow> tooltipMouseLeave_body n s
      | HostListener k \<Rightarrow> s)"

definition listeners_of :: "target \<Rightarrow> state \<Rightarrow> (string \<times> listener) list" where
  "listeners_of t s =
     (case t of
        OverElement el \<Rightarrow> listeners (elements s el)
      | OverArtifact n \<Rightarrow> concat (map nodeListeners (filter (\<lambda>a. node a = n) (body s)))
      | Elsewhere \<Rightarrow> [])"

definition dispatch :: "target \<Rightarrow> string \<Rightarrow> clip \<Rightarrow> exec_result \<Rightarrow> state \<Rightarrow> state" where
  "dispatch t ty c ex s =
     foldl (\<lambda>st l. run_listener l c ex st) s
       (map snd (filter (\<lambda>p. fst p = ty) (listeners_of t s)))"

text \<open>What can happen on the page: time passes, the observer delivers mutation records,
  the pointer moves, the user clicks, a clipboard promise settles, the page unloads, and
  the page itself changes the document, an identifier attribute or a class list.\<close>

datatype event =
    Elapse nat
  | Mutations "mutation list"
  | PointerTo target
  | Click target clip exec_result
  | Settle nat "error option" exec_result
  | BeforeUnload
  | HostSetDocument "elem list"
  | HostSetTestid elem "string option"
  | HostSetClassList elem "string list"

text \<open>The pointer moves: \<^verbatim>\<open>mouseleave\<close> on what it was over, \<^verbatim>\<open>mouseenter\<close> on what
  it is over now. The answers of the clipboard are asked for by click listeners only.\<close>

definition pointer_move :: "target \<Rightarrow> state \<Rightarrow> state" where
  "pointer_move t s =
     (if pointer s = t then s
      else
        let old = pointer s;
            s1 = s\<lparr>pointer := t\<rparr>;
            s2 = dispatch old ''mouseleave'' ClipPromise (ExecReturns True) s1
        in dispatch t ''mouseenter'' ClipPromise (ExecReturns True) s2)"

text \<open>The promise of the \<open>i\<close>-th suspended click handler settles and the handler
  resumes.\<close>

definition settle :: "nat \<Rightarrow> error option \<Rightarrow> exec_result \<Rightarrow> state \<Rightarrow> state" where
  "settle i outcome ex s =
     (if i < length (suspended s)
      then uncaught (copy_resume (suspended s ! i) outcome ex
                       (s\<lparr>suspended := take i (suspended s) @ drop (Suc i) (suspended s)\<rparr>))
      else s)"

definition step :: "event \<Rightarrow> state \<Rightarrow> state" where
  "step e s =
     (case e of
        Elapse d \<Rightarrow> advance run_callback d s
      | Mutations ms \<Rightarrow> if observing s then observer_callback ms s else s
      | PointerTo t \<Rightarrow> pointer_move t s
      | Click t c ex \<Rightarrow> dispatch t ''click'' c ex s
      | Settle i outcome ex \<Rightarrow> settle i outcome ex s
      | BeforeUnload \<Rightarrow> beforeunload s
      | HostSetDocument d \<Rightarrow> s\<lparr>document := d\<rparr>
      | HostSetTestid el v \<Rightarrow> update_element el (\<lambda>e. e\<lparr>testid := v\<rparr>) s
      | HostSetClassList el cs \<Rightarrow> update_element el (\<lambda>e. e\<lparr>classList := cs\<rparr>) s)"

definition run :: "event list \<Rightarrow> state \<Rightarrow> state" where
  "run es s = foldl (\<lambda>st e. step e st) s es"

text \<open>The script starts on a page whose elements carry listeners of the page only; it runs
  \<^verbatim>\<open>scanAndHighlight\<close> once and connects the observer.\<close>

definition is_system :: "listener \<Rightarrow> bool" where
  "is_system l = (case l of HostListener k \<Rightarrow> False | _ \<Rightarrow> True)"

definition system_listeners :: "elem \<Rightarrow> state \<Rightarrow> (string \<times> listener) list" where
  "system_listeners el s = filter (\<lambda>p. is_system (snd p)) (listeners (elements s el))"

definition fresh_page :: "(elem \<Rightarrow> element) \<Rightarrow> elem list \<Rightarrow> state" where
  "fresh_page els doc =
     \<lparr>pending = [], nextTimer = 1, clock = 0, timeout = None,
      elements = els, document = doc, body = [], nextNode = 0, pointer = Elsewhere,
      elementData = Map.empty, trackedElements = [], activeTimeouts = [], nextClosure = 0,
      observing = False, suspended = [], calls = []\<rparr>"

definition boot :: "(elem \<Rightarrow> element) \<Rightarrow> elem list \<Rightarrow> state" where
  "boot els doc = (scanAndHighlight (fresh_page els doc))\<lparr>observing := True\<rparr>"

inductive reachable :: "state \<Rightarrow> bool" where
  reachable_boot:
    "(\<And>el. filter (\<lambda>p. is_system (snd p)) (listeners (els el)) = []) \<Longrightarrow> reachable (boot els doc)"
| reachable_step: "reachable s \<Longrightarrow> reachable (step e s)"

text \<open>A burst of mutation notifications as events of the page.\<close>

definition mutation_burst :: "(mutation list \<times> nat) list \<Rightarrow> event list" where
  "mutation_burst xs = concat (map (\<lambda>x. [Mutations (fst x), Elapse (snd x)]) xs)"

section \<open>Predicates of the statements\<close>

text \<open>\<open>eligible\<close>: \<^verbatim>\<open>highlightElement\<close> passes both of its guards.
  \<open>stale\<close>: the second loop of \<^verbatim>\<open>scanAndHighlight\<close> calls \<^verbatim>\<open>cleanupElement\<close> on
  the element and finds a side-table entry. \<open>dom_frame\<close>: the fields that the three
  reconciliation functions never write.\<close>

definition eligible :: "elem \<Rightarrow> state \<Rightarrow> bool" where
  "eligible el s = (truthy (testid (elements s el)) \<and>
     ''test-id-highlight'' \<notin> set (classList (elements s el)) \<and> elementData s el = None)"

definition dom_frame :: "state \<Rightarrow> state \<Rightarrow> bool" where
  "dom_frame s s' = (pending s' = pending s \<and> nextTimer s' = nextTimer s \<and> clock s' = clock s \<and>
     timeout s' = timeout s \<and> document s' = document s \<and> body s' = body s \<and>
     nextNode s' = nextNode s \<and> pointer s' = pointer s \<and> activeTimeouts s' = activeTimeouts s \<and>
     observing s' = observing s \<and> suspended s' = suspended s)"

definition stale :: "elem list \<Rightarrow> elem \<Rightarrow> state \<Rightarrow> bool" where
  "stale cur el s = ((el \<notin> set cur \<or> el \<notin> set (document s)) \<and> elementData s el \<noteq> None)"

text \<open>\<open>ui_frame\<close>: the fields that the handlers, the timers and the feedback code
  never write.\<close>

definition ui_frame :: "state \<Rightarrow> state \<Rightarrow> bool" where
  "ui_frame s s' =
     (elements s' = elements s \<and> elementData s' = elementData s \<and>
      trackedElements s' = trackedElements s)"

text \<open>The three listeners recorded in a side-table entry, and the membership invariant:
  an element is tracked exactly when it has a side-table entry, and the listeners of this
  script on an element are exactly the three of its entry (none without an entry).\<close>

definition installed :: "handlers \<Rightarrow> (string \<times> listener) list" where
  "installed h =
     [(''mouseenter'', mouseEnterHandler h), (''mouseleave'', mouseLeaveHandler h),
      (''click'', clickHandler h)]"

definition membership_inv :: "state \<Rightarrow> bool" where
  "membership_inv s =
     (\<forall>el. (el \<in> set (trackedElements s)) = (elementData s el \<noteq> None) \<and>
           system_listeners el s =
             (case elementData s el of None \<Rightarrow> [] | Some h \<Rightarrow> installed h))"

text \<open>The feedback artifacts in the document, the timers that remove them, and what
  the script maintains about them: at most one feedback artifact; every pending
  feedback timer is registered in \<^verbatim>\<open>activeTimeouts\<close> and carries its own identifier;
  timer identifiers are unique and below the next one to be handed out.\<close>

definition feedback_artifacts :: "state \<Rightarrow> artifact list" where
  "feedback_artifacts s = filter (\<lambda>a. ident a = ''__testid_copy_feedback__'') (body s)"

definition is_feedback_timer :: "nat \<times> nat \<times> callback \<Rightarrow> bool" where
  "is_feedback_timer t = (case snd (snd t) of FeedbackTimer n i \<Rightarrow> True | _ \<Rightarrow> False)"

definition own_id :: "nat \<times> nat \<times> callback \<Rightarrow> bool" where
  "own_id t = (case snd (snd t) of FeedbackTimer n i \<Rightarrow> i = fst t | _ \<Rightarrow> True)"

definition feedback_inv :: "state \<Rightarrow> bool" where
  "feedback_inv s =
     (length (feedback_artifacts s) \<le> 1 \<and>
      (\<forall>t \<in> set (pending s). is_feedback_timer t \<longrightarrow> fst t \<in> set (activeTimeouts s)) \<and>
      (\<forall>t \<in> set (pending s). own_id t) \<and>
      distinct (map fst (pending s)) \<and>
      (\<forall>t \<in> set (pending s). fst t < nextTimer s))"

section \<open>A page for the examples\<close>

text \<open>The page of the specification's scenario, \<^verbatim>\<open><div data-testid="login-btn">\<close> as
  element 0, together with an element 1 that has no identifier attribute and an element
  2 whose identifier is \<^verbatim>\<open>save-btn\<close>.\<close>

definition login_elements :: "elem \<Rightarrow> element" where
  "login_elements el =
     (if el = 0 then \<lparr>testid = Some ''login-btn'', classList = [], listeners = []\<rparr>
      else if el = 2 then \<lparr>testid = Some ''save-btn'', classList = [], listeners = []\<rparr>
      else \<lparr>testid = None, classList = [], listeners = []\<rparr>)"


text \<open>A mutation record for a change of the \<^verbatim>\<open>data-testid\<close> attribute.\<close>

definition testid_mutation :: mutation where
  "testid_mutation =
     \<lparr>addedNodes = [], removedNodes = [], mutationType = ''attributes'',
      attributeName = Some ''data-testid''\<rparr>"

text \<open>A window with one debounced function that records the arguments of each of its
  runs.\<close>

record 'a probe = "'a debouncer" +
  executed :: "'a list"

definition record_call :: "'a \<Rightarrow> 'a probe \<Rightarrow> 'a probe" where
  "record_call args s = s\<lparr>executed := executed s @ [args]\<rparr>"

definition quiet_probe :: "string probe" where
  "quiet_probe = \<lparr>pending = [], nextTimer = 1, clock = 0, timeout = None, executed = []\<rparr>"

text \<open>The example page once the script has started and the page has then taken element 2
  out of the document.\<close>

definition shrunk_page :: state where
  "shrunk_page = step (HostSetDocument [0]) (boot login_elements [0, 1, 2])"

section \<open>Reconciliation: one element, then the loops\<close>

lemmas prim_defs = log_def update_element_def classList_contains_def classList_add_def
  classList_remove_def addEventListener_def removeEventListener_def elementData_has_def
  elementData_set_def elementData_delete_def trackedElements_add_def trackedElements_delete_def

lemma dom_frame_refl: "dom_frame s s"
  by (simp add: dom_frame_def)

lemma dom_frame_trans: "dom_frame s t \<Longrightarrow> dom_frame t u \<Longrightarrow> dom_frame s u"
  by (simp add: dom_frame_def)

lemma highlightElement_skip: "\<not> eligible el s \<Longrightarrow> highlightElement el s = s"
  by (auto simp: eligible_def highlightElement_def prim_defs)

lemma highlightElement_frame: "dom_frame s (highlightElement el s)"
  by (simp add: highlightElement_def Let_def prim_defs dom_frame_def)

lemma cleanupElement_frame: "dom_frame s (cleanupElement el s)"
  by (simp add: cleanupElement_def Let_def prim_defs dom_frame_def split: option.splits)

subsection \<open>What one call does to one element\<close>

lemma highlightElement_other:
  "x \<noteq> el \<Longrightarrow> elements (highlightElement el s) x = elements s x \<and>
     elementData (highlightElement el s) x = elementData s x \<and>
     (x \<in> set (trackedElements (highlightElement el s))) = (x \<in> set (trackedElements s))"
  by (simp add: highlightElement_def Let_def prim_defs)

lemma cleanupElement_other:
  "x \<noteq> el \<Longrightarrow> elements (cleanupElement el s) x = elements s x \<and>
     elementData (cleanupElement el s) x = elementData s x \<and>
     (x \<in> set (trackedElements (cleanupElement el s))) = (x \<in> set (trackedElements s))"
  by (simp add: cleanupElement_def Let_def prim_defs split: option.splits)

lemma highlightElement_testid:
  "testid (elements (highlightElement el s) x) = testid (elements s x)"
  by (simp add: highlightElement_def Let_def prim_defs)

lemma cleanupElement_testid:
  "testid (elements (cleanupElement el s) x) = testid (elements s x)"
  by (simp add: cleanupElement_def Let_def prim_defs split: option.splits)

lemma highlightElement_eligible:
  "eligible el s \<Longrightarrow>
     ''test-id-highlight'' \<in> set (classList (elements (highlightElement el s) el)) \<and>
     elementData (highlightElement el s) el =
       Some \<lparr>mouseEnterHandler = MouseEnterHandler (nextClosure s) el,
             mouseLeaveHandler = MouseLeaveHandler (nextClosure s) el,
             clickHandler = ClickHandler (nextClosure s) el\<rparr> \<and>
     el \<in> set (trackedElements (highlightElement el s))"
  apply (simp add: eligible_def highlightElement_def classList_contains_def elementData_has_def)
  apply (simp add: Let_def trackedElements_add_def elementData_set_def log_def)
  apply (simp add: addEventListener_def log_def update_element_def classList_add_def)
  done

subsection \<open>Folds\<close>

lemma foldl_fixed:
  "(\<And>x. x \<in> set xs \<Longrightarrow> f x s = s) \<Longrightarrow> foldl (\<lambda>st x. f x st) s xs = s"
  by (induction xs) auto

lemma foldl_establish:
  assumes est: "\<And>x st. Q x (f x st)"
    and stab: "\<And>x y st. Q x st \<Longrightarrow> Q x (f y st)"
  shows "\<forall>x\<in>set xs. Q x (foldl (\<lambda>st x. f x st) s xs)"
proof (induction xs rule: rev_induct)
  case Nil
  then show ?case by simp
next
  case (snoc y ys)
  then show ?case using est stab by auto
qed

lemma foldl_preserve:
  assumes "\<And>y st. P st \<Longrightarrow> P (f y st)" and "P s"
  shows "P (foldl (\<lambda>st x. f x st) s xs)"
  using assms by (induction xs rule: rev_induct) auto

lemma highlightElement_self_not_eligible: "\<not> eligible el (highlightElement el s)"
proof (cases "eligible el s")
  case True
  from highlightElement_eligible[OF this] show ?thesis by (simp add: eligible_def)
next
  case False
  then show ?thesis by (simp add: highlightElement_skip)
qed

lemma highlightElement_eligible_mono:
  assumes "eligible x (highlightElement el s)" shows "eligible x s"
proof (cases "eligible el s")
  case False
  with assms show ?thesis by (simp add: highlightElement_skip)
next
  case True
  have "x \<noteq> el" using assms highlightElement_self_not_eligible by blast
  then show ?thesis using assms highlightElement_other[of x el s]
    by (simp add: eligible_def)
qed

lemma highlight_all_none_eligible:
  "\<forall>x\<in>set xs. \<not> eligible x (foldl (\<lambda>st el. highlightElement el st) s xs)"
  by (rule foldl_establish[where Q = "\<lambda>x st. \<not> eligible x st"])
     (auto simp: highlightElement_self_not_eligible dest: highlightElement_eligible_mono)

lemma highlight_all_fixed:
  "\<forall>x\<in>set xs. \<not> eligible x s \<Longrightarrow> foldl (\<lambda>st el. highlightElement el st) s xs = s"
  by (rule foldl_fixed) (simp add: highlightElement_skip)

lemma cleanup_step_skip: "\<not> stale cur el s \<Longrightarrow> cleanup_step cur el s = s"
  by (auto simp: stale_def cleanup_step_def document_contains_def cleanupElement_def)

lemma cleanupElement_document: "document (cleanupElement el s) = document s"
  using cleanupElement_frame[of s el] by (simp add: dom_frame_def)

lemma highlightElement_document: "document (highlightElement el s) = document s"
  using highlightElement_frame[of s el] by (simp add: dom_frame_def)

lemma cleanup_step_document: "document (cleanup_step cur el s) = document s"
  by (simp add: cleanup_step_def cleanupElement_document)

lemma cleanup_step_testid: "testid (elements (cleanup_step cur el s) x) = testid (elements s x)"
  by (simp add: cleanup_step_def cleanupElement_testid)

lemma cleanupElement_self:
  "elementData (cleanupElement el s) el = None"
  by (simp add: cleanupElement_def Let_def prim_defs split: option.splits)

lemma cleanup_step_self_not_stale: "\<not> stale cur el (cleanup_step cur el s)"
  by (auto simp: stale_def cleanup_step_def document_contains_def cleanupElement_self
      cleanupElement_document)

lemma cleanup_step_stale_mono:
  assumes "stale cur x (cleanup_step cur el s)" shows "stale cur x s"
proof (cases "stale cur el s")
  case False
  with assms show ?thesis by (simp add: cleanup_step_skip)
next
  case True
  have "x \<noteq> el" using assms cleanup_step_self_not_stale by blast
  moreover have "cleanup_step cur el s = cleanupElement el s"
    using True by (auto simp: stale_def cleanup_step_def document_contains_def)
  ultimately show ?thesis using assms cleanupElement_other[of x el s]
    by (simp add: stale_def cleanupElement_document)
qed

lemma cleanup_all_none_stale:
  "\<forall>x\<in>set xs. \<not> stale cur x (foldl (\<lambda>st el. cleanup_step cur el st) s xs)"
  by (rule foldl_establish[where Q = "\<lambda>x st. \<not> stale cur x st"])
     (auto simp: cleanup_step_self_not_stale dest: cleanup_step_stale_mono)

lemma cleanup_all_fixed:
  "\<forall>x\<in>set xs. \<not> stale cur x s \<Longrightarrow> foldl (\<lambda>st el. cleanup_step cur el st) s xs = s"
  by (rule foldl_fixed) (simp add: cleanup_step_skip)

lemma qsa_cong:
  "document s' = document s \<Longrightarrow> (\<And>x. testid (elements s' x) = testid (elements s x)) \<Longrightarrow>
   querySelectorAll_testid s' = querySelectorAll_testid s"
  by (simp add: querySelectorAll_testid_def)

lemma highlight_all_document:
  "document (foldl (\<lambda>st el. highlightElement el st) s xs) = document s"
  by (induction xs rule: rev_induct) (simp_all add: highlightElement_document)

lemma highlight_all_testid:
  "testid (elements (foldl (\<lambda>st el. highlightElement el st) s xs) x) = testid (elements s x)"
  by (induction xs rule: rev_induct) (simp_all add: highlightElement_testid)

lemma cleanup_all_document:
  "document (foldl (\<lambda>st el. cleanup_step cur el st) s xs) = document s"
  by (induction xs rule: rev_induct) (simp_all add: cleanup_step_document)

lemma cleanup_all_testid:
  "testid (elements (foldl (\<lambda>st el. cleanup_step cur el st) s xs) x) = testid (elements s x)"
  by (induction xs rule: rev_induct) (simp_all add: cleanup_step_testid)

lemma cleanupElement_tracked_subset:
  "set (trackedElements (cleanupElement el s)) \<subseteq> set (trackedElements s)"
  by (auto simp: cleanupElement_def Let_def prim_defs split: option.splits)

lemma cleanup_all_tracked_subset:
  "set (trackedElements (foldl (\<lambda>st el. cleanup_step cur el st) s xs)) \<subseteq> set (trackedElements s)"
proof (induction xs rule: rev_induct)
  case Nil
  then show ?case by simp
next
  case (snoc y ys)
  let ?t = "foldl (\<lambda>st el. cleanup_step cur el st) s ys"
  have "set (trackedElements (cleanup_step cur y ?t)) \<subseteq> set (trackedElements ?t)"
    using cleanupElement_tracked_subset[of y ?t] by (simp add: cleanup_step_def)
  with snoc show ?case by auto
qed

text \<open>An element of the scan result that is in the document is left alone by the second loop.\<close>

lemma cleanup_step_current:
  assumes "x \<in> set cur" and "x \<in> set (document s)"
  shows "elements (cleanup_step cur el s) x = elements s x \<and>
     elementData (cleanup_step cur el s) x = elementData s x \<and>
     (x \<in> set (trackedElements (cleanup_step cur el s))) = (x \<in> set (trackedElements s))"
proof (cases "x = el")
  case True
  with assms show ?thesis by (simp add: cleanup_step_def document_contains_def)
next
  case False
  then show ?thesis using cleanupElement_other[of x el s] by (simp add: cleanup_step_def)
qed

lemma cleanup_all_current:
  assumes "x \<in> set cur" and "x \<in> set (document s)"
  shows "elements (foldl (\<lambda>st el. cleanup_step cur el st) s xs) x = elements s x \<and>
     elementData (foldl (\<lambda>st el. cleanup_step cur el st) s xs) x = elementData s x \<and>
     (x \<in> set (trackedElements (foldl (\<lambda>st el. cleanup_step cur el st) s xs))) =
       (x \<in> set (trackedElements s))"
proof (induction xs rule: rev_induct)
  case Nil
  then show ?case by simp
next
  case (snoc y ys)
  let ?t = "foldl (\<lambda>st el. cleanup_step cur el st) s ys"
  have "x \<in> set (document ?t)" using assms(2) by (simp add: cleanup_all_document)
  from cleanup_step_current[OF assms(1) this, of y] snoc show ?case by simp
qed

lemma qsa_in_document: "x \<in> set (querySelectorAll_testid s) \<Longrightarrow> x \<in> set (document s)"
  by (simp add: querySelectorAll_testid_def)

lemma foldl_establish_from:
  assumes pres: "\<And>y st. y \<noteq> x \<Longrightarrow> P st \<Longrightarrow> P (f y st)"
    and est: "\<And>st. P st \<Longrightarrow> Q (f x st)"
    and stab: "\<And>y st. Q st \<Longrightarrow> Q (f y st)"
  shows "P s \<or> Q s \<Longrightarrow> x \<in> set xs \<Longrightarrow> Q (foldl (\<lambda>st y. f y st) s xs)"
proof (induction xs arbitrary: s)
  case Nil
  then show ?case by simp
next
  case (Cons y ys)
  show ?case
  proof (cases "x \<in> set ys")
    case True
    have "P (f y s) \<or> Q (f y s)"
      using Cons.prems(1) pres est stab by (cases "y = x") auto
    from Cons.IH[OF this True] show ?thesis by simp
  next
    case False
    then have "y = x" using Cons.prems(2) by simp
    then have "Q (f y s)" using Cons.prems(1) est stab by auto
    then have "Q (foldl (\<lambda>st y. f y st) (f y s) ys)"
      using stab by (intro foldl_preserve[where P = Q]) auto
    then show ?thesis by simp
  qed
qed

lemma foldl_untouched:
  assumes "\<And>y st. y \<noteq> x \<Longrightarrow> P st \<Longrightarrow> P (f y st)"
  shows "P s \<Longrightarrow> x \<notin> set xs \<Longrightarrow> P (foldl (\<lambda>st y. f y st) s xs)"
  using assms by (induction xs arbitrary: s) auto

lemma system_listeners_removeAll:
  "filter P (removeAll x xs) = removeAll x (filter P xs)"
  by (induction xs) auto

lemma highlightElement_inv: "membership_inv s \<Longrightarrow> membership_inv (highlightElement el s)"
proof (cases "eligible el s")
  case False
  assume "membership_inv s"
  with False show ?thesis by (simp add: highlightElement_skip)
next
  case True
  assume inv: "membership_inv s"
  have none: "elementData s el = None" using True by (simp add: eligible_def)
  have sl: "system_listeners el s = []" using inv none by (simp add: membership_inv_def)
  then have nosys: "\<And>ty l. is_system l \<Longrightarrow> (ty, l) \<notin> set (listeners (elements s el))"
    by (auto simp: system_listeners_def filter_empty_conv)
  have f1: "(''mouseenter'', MouseEnterHandler (nextClosure s) el) \<notin> set (listeners (elements s el))"
    and f2: "(''mouseleave'', MouseLeaveHandler (nextClosure s) el) \<notin> set (listeners (elements s el))"
    and f3: "(''click'', ClickHandler (nextClosure s) el) \<notin> set (listeners (elements s el))"
    by (simp_all add: nosys is_system_def)
  have l: "listeners (elements (highlightElement el s) el) =
      listeners (elements s el) @ installed \<lparr>mouseEnterHandler = MouseEnterHandler (nextClosure s) el,
             mouseLeaveHandler = MouseLeaveHandler (nextClosure s) el,
             clickHandler = ClickHandler (nextClosure s) el\<rparr>"
    using True f1 f2 f3
    apply (simp add: eligible_def highlightElement_def classList_contains_def elementData_has_def)
    apply (simp add: Let_def trackedElements_add_def elementData_set_def log_def)
    apply (simp add: addEventListener_def log_def update_element_def classList_add_def installed_def)
    done
  show ?thesis
    unfolding membership_inv_def
  proof (intro allI)
    fix x
    show "(x \<in> set (trackedElements (highlightElement el s))) = (elementData (highlightElement el s) x \<noteq> None) \<and>
           system_listeners x (highlightElement el s) =
             (case elementData (highlightElement el s) x of None \<Rightarrow> [] | Some h \<Rightarrow> installed h)"
    proof (cases "x = el")
      case False
      then show ?thesis using inv highlightElement_other[of x el s]
        by (simp add: membership_inv_def system_listeners_def)
    next
      case xe: True
      show ?thesis using highlightElement_eligible[OF True] l sl
        by (simp add: xe system_listeners_def installed_def is_system_def)
    qed
  qed
qed

lemma cleanupElement_entry:
  "elementData s el = Some h \<Longrightarrow>
     elements (cleanupElement el s) el =
       (elements s el)\<lparr>listeners :=
           removeAll (''click'', clickHandler h)
             (removeAll (''mouseleave'', mouseLeaveHandler h)
               (removeAll (''mouseenter'', mouseEnterHandler h) (listeners (elements s el)))),
         classList := removeAll ''test-id-highlight'' (classList (elements s el))\<rparr> \<and>
     elementData (cleanupElement el s) el = None \<and>
     el \<notin> set (trackedElements (cleanupElement el s))"
  by (simp add: cleanupElement_def Let_def prim_defs)


lemma cleanupElement_inv: "membership_inv s \<Longrightarrow> membership_inv (cleanupElement el s)"
proof (cases "elementData s el")
  case None
  assume "membership_inv s"
  with None show ?thesis by (simp add: cleanupElement_def)
next
  case (Some h)
  assume inv: "membership_inv s"
  have sl: "system_listeners el s = installed h" using inv Some by (simp add: membership_inv_def)
  note ce = cleanupElement_entry[OF Some]
  have "system_listeners el (cleanupElement el s) =
      removeAll (''click'', clickHandler h)
             (removeAll (''mouseleave'', mouseLeaveHandler h)
               (removeAll (''mouseenter'', mouseEnterHandler h) (system_listeners el s)))"
    using ce by (simp add: system_listeners_def system_listeners_removeAll)
  then have sl': "system_listeners el (cleanupElement el s) = []"
    by (simp add: sl installed_def)
  show ?thesis
    unfolding membership_inv_def
  proof (intro allI)
    fix x
    show "(x \<in> set (trackedElements (cleanupElement el s))) = (elementData (cleanupElement el s) x \<noteq> None) \<and>
           system_listeners x (cleanupElement el s) =
             (case elementData (cleanupElement el s) x of None \<Rightarrow> [] | Some h \<Rightarrow> installed h)"
    proof (cases "x = el")
      case False
      then show ?thesis using inv cleanupElement_other[of x el s]
        by (simp add: membership_inv_def system_listeners_def)
    next
      case True
      then show ?thesis using ce sl' by simp
    qed
  qed
qed

lemma cleanup_step_inv: "membership_inv s \<Longrightarrow> membership_inv (cleanup_step cur el s)"
  by (simp add: cleanup_step_def cleanupElement_inv)

lemma scanAndHighlight_inv: "membership_inv s \<Longrightarrow> membership_inv (scanAndHighlight s)"
  unfolding scanAndHighlight_def Let_def
  by (intro foldl_preserve[where P = membership_inv] highlightElement_inv cleanup_step_inv)

lemma membership_inv_cong:
  "elements s' = elements s \<Longrightarrow> elementData s' = elementData s \<Longrightarrow>
   trackedElements s' = trackedElements s \<Longrightarrow> membership_inv s' = membership_inv s"
  by (simp add: membership_inv_def system_listeners_def)

lemma clearTimeout_state_fields [simp]:
  "elements (clearTimeout h s) = elements s"
  "elementData (clearTimeout h s) = elementData s"
  "trackedElements (clearTimeout h s) = trackedElements s"
  "activeTimeouts (clearTimeout h s) = activeTimeouts s"
  "body (clearTimeout h s) = body s"
  "calls (clearTimeout h s) = calls s"
  "document (clearTimeout h s) = document s"
  "observing (clearTimeout h s) = observing s"
  by (simp_all add: clearTimeout_def split: option.splits)

lemma clearTimeout_window_fields [simp]:
  "nextTimer (clearTimeout h s) = nextTimer s"
  "clock (clearTimeout h s) = clock s"
  by (simp_all add: clearTimeout_def split: option.splits)

lemma clearTimeout_timeout [simp]: "timeout (clearTimeout h s) = timeout s"
  by (simp add: clearTimeout_def split: option.splits)

lemma remove_by_id_fields [simp]:
  "elements (remove_by_id i s) = elements s"
  "elementData (remove_by_id i s) = elementData s"
  "trackedElements (remove_by_id i s) = trackedElements s"
  "activeTimeouts (remove_by_id i s) = activeTimeouts s"
  "pending (remove_by_id i s) = pending s"
  "nextTimer (remove_by_id i s) = nextTimer s"
  "clock (remove_by_id i s) = clock s"
  "timeout (remove_by_id i s) = timeout s"
  "calls (remove_by_id i s) = calls s"
  "document (remove_by_id i s) = document s"
  "observing (remove_by_id i s) = observing s"
  by (simp_all add: remove_by_id_def remove_node_def split: option.splits)

lemma clear_all_fields:
  "elements (foldl (\<lambda>st t. clearTimeout (Some t) st) s ts) = elements s \<and>
   elementData (foldl (\<lambda>st t. clearTimeout (Some t) st) s ts) = elementData s \<and>
   trackedElements (foldl (\<lambda>st t. clearTimeout (Some t) st) s ts) = trackedElements s"
  by (induction ts arbitrary: s) simp_all

lemma cleanup_all_inv:
  "membership_inv s \<Longrightarrow> membership_inv (foldl (\<lambda>st el. cleanupElement el st) s xs)"
  by (intro foldl_preserve[where P = membership_inv] cleanupElement_inv)

lemma beforeunload_inv: "membership_inv s \<Longrightarrow> membership_inv (beforeunload s)"
proof -
  assume inv: "membership_inv s"
  define s1 where "s1 = foldl (\<lambda>st el. cleanupElement el st) s (trackedElements s)"
  have i1: "membership_inv s1" unfolding s1_def using inv by (rule cleanup_all_inv)
  have "membership_inv (beforeunload s) = membership_inv s1"
    by (rule membership_inv_cong)
       (simp_all add: beforeunload_def Let_def s1_def[symmetric] clear_all_fields)
  with i1 show ?thesis by simp
qed





section \<open>The membership invariant at the start\<close>

lemma fresh_page_inv:
  "(\<And>el. filter (\<lambda>p. is_system (snd p)) (listeners (els el)) = []) \<Longrightarrow>
   membership_inv (fresh_page els doc)"
  by (simp add: membership_inv_def fresh_page_def system_listeners_def)

lemma boot_inv:
  assumes "\<And>el. filter (\<lambda>p. is_system (snd p)) (listeners (els el)) = []"
  shows "membership_inv (boot els doc)"
proof -
  have "membership_inv (boot els doc) = membership_inv (scanAndHighlight (fresh_page els doc))"
    by (rule membership_inv_cong) (simp_all add: boot_def)
  then show ?thesis using scanAndHighlight_inv[OF fresh_page_inv[OF assms]] by simp
qed

lemma login_elements_host_only:
  "filter (\<lambda>p. is_system (snd p)) (listeners (login_elements el)) = []"
  by (simp add: login_elements_def)


section \<open>An annotated element through a pass\<close>


section \<open>The calls of a copy action\<close>






section \<open>The feedback artifact\<close>

lemma feedback_inv_cong:
  "body s' = body s \<Longrightarrow> pending s' = pending s \<Longrightarrow> nextTimer s' = nextTimer s \<Longrightarrow>
   activeTimeouts s' = activeTimeouts s \<Longrightarrow> feedback_inv s' = feedback_inv s"
  by (simp add: feedback_inv_def feedback_artifacts_def)

lemma feedback_inv_dom_frame: "dom_frame s s' \<Longrightarrow> feedback_inv s' = feedback_inv s"
  by (rule feedback_inv_cong) (simp_all add: dom_frame_def)

lemma cleanup_step_frame: "dom_frame s (cleanup_step cur el s)"
  by (simp add: cleanup_step_def cleanupElement_frame dom_frame_refl)

lemma highlight_all_frame: "dom_frame s (foldl (\<lambda>st el. highlightElement el st) s xs)"
proof (induction xs rule: rev_induct)
  case Nil
  then show ?case by (simp add: dom_frame_refl)
next
  case (snoc y ys)
  then show ?case using dom_frame_trans highlightElement_frame by fastforce
qed

lemma cleanup_steps_frame: "dom_frame s (foldl (\<lambda>st el. cleanup_step cur el st) s xs)"
proof (induction xs rule: rev_induct)
  case Nil
  then show ?case by (simp add: dom_frame_refl)
next
  case (snoc y ys)
  then show ?case using dom_frame_trans cleanup_step_frame by fastforce
qed

lemma cleanup_all_frame: "dom_frame s (foldl (\<lambda>st el. cleanupElement el st) s xs)"
proof (induction xs rule: rev_induct)
  case Nil
  then show ?case by (simp add: dom_frame_refl)
next
  case (snoc y ys)
  then show ?case using dom_frame_trans cleanupElement_frame by fastforce
qed

lemma scanAndHighlight_frame: "dom_frame s (scanAndHighlight s)"
  unfolding scanAndHighlight_def Let_def
  by (rule dom_frame_trans[OF highlight_all_frame cleanup_steps_frame])

lemma remove_node_feedback_inv: "feedback_inv s \<Longrightarrow> feedback_inv (remove_node n s)"
proof -
  assume inv: "feedback_inv s"
  have "feedback_artifacts (remove_node n s) = filter (\<lambda>a. node a \<noteq> n) (feedback_artifacts s)"
    by (simp add: feedback_artifacts_def remove_node_def conj_commute)
  then have "length (feedback_artifacts (remove_node n s)) \<le> length (feedback_artifacts s)"
    by (simp only: length_filter_le)
  then have "length (feedback_artifacts (remove_node n s)) \<le> 1"
    using inv by (simp add: feedback_inv_def)
  moreover have "pending (remove_node n s) = pending s" "nextTimer (remove_node n s) = nextTimer s"
    "activeTimeouts (remove_node n s) = activeTimeouts s"
    by (simp_all add: remove_node_def)
  ultimately show ?thesis using inv by (simp add: feedback_inv_def)
qed

lemma remove_by_id_feedback_inv: "feedback_inv s \<Longrightarrow> feedback_inv (remove_by_id i s)"
  by (simp add: remove_by_id_def remove_node_feedback_inv split: option.splits)






subsection \<open>showCopyFeedback\<close>



lemma find_filter_hd: "find P xs = (case filter P xs of [] \<Rightarrow> None | x # _ \<Rightarrow> Some x)"
  by (induction xs) auto

lemma remove_feedback_none:
  assumes "length (feedback_artifacts s) \<le> 1"
  shows "feedback_artifacts (remove_by_id ''__testid_copy_feedback__'' s) = []"
proof (cases "feedback_artifacts s")
  case Nil
  then show ?thesis
    by (simp add: remove_by_id_def getElementById_def find_filter_hd feedback_artifacts_def)
next
  case (Cons a as)
  then have as: "as = []" using assms by simp
  have "feedback_artifacts (remove_node (node a) s) =
      filter (\<lambda>b. node b \<noteq> node a) (feedback_artifacts s)"
    by (simp add: feedback_artifacts_def remove_node_def conj_commute)
  then have "feedback_artifacts (remove_node (node a) s) = []"
    by (simp add: Cons as)
  moreover have "getElementById ''__testid_copy_feedback__'' s = Some a"
    using Cons by (simp add: getElementById_def find_filter_hd feedback_artifacts_def)
  ultimately show ?thesis by (simp add: remove_by_id_def)
qed


subsection \<open>The feedback invariant along every event\<close>

lemma feedback_inv_updates [simp]:
  "feedback_inv (s\<lparr>calls := c\<rparr>) = feedback_inv s"
  "feedback_inv (s\<lparr>nextNode := n\<rparr>) = feedback_inv s"
  "feedback_inv (s\<lparr>timeout := h\<rparr>) = feedback_inv s"
  "feedback_inv (s\<lparr>clock := k\<rparr>) = feedback_inv s"
  "feedback_inv (s\<lparr>suspended := fs\<rparr>) = feedback_inv s"
  "feedback_inv (s\<lparr>observing := b\<rparr>) = feedback_inv s"
  "feedback_inv (s\<lparr>pointer := p\<rparr>) = feedback_inv s"
  "feedback_inv (s\<lparr>document := d\<rparr>) = feedback_inv s"
  "feedback_inv (s\<lparr>elements := e\<rparr>) = feedback_inv s"
  by (simp_all add: feedback_inv_def feedback_artifacts_def)



















lemma clear_all_feedback_fields:
  "pending (foldl (\<lambda>st t. clearTimeout (Some t) st) s ts) =
     filter (\<lambda>p. fst p \<notin> set ts) (pending s) \<and>
   body (foldl (\<lambda>st t. clearTimeout (Some t) st) s ts) = body s \<and>
   nextTimer (foldl (\<lambda>st t. clearTimeout (Some t) st) s ts) = nextTimer s \<and>
   activeTimeouts (foldl (\<lambda>st t. clearTimeout (Some t) st) s ts) = activeTimeouts s"
proof (induction ts arbitrary: s)
  case Nil
  then show ?case by simp
next
  case (Cons t ts)
  have "filter (\<lambda>p. fst p \<notin> set ts) (filter (\<lambda>p. fst p \<noteq> t) (pending s)) =
      filter (\<lambda>p. fst p \<notin> set (t # ts)) (pending s)"
    by (auto intro: filter_cong)
  then show ?case using Cons.IH[of "clearTimeout (Some t) s"] by (simp add: clearTimeout_def)
qed






section \<open>A burst of calls of a debounced function\<close>

lemma executedFunction_idle:
  assumes "debounce_idle s"
  shows "executedFunction mk wait a s =
     s\<lparr>pending := [(nextTimer s, clock s + wait, mk a)], nextTimer := Suc (nextTimer s),
       timeout := Some (nextTimer s)\<rparr>"
proof -
  have "pending (clearTimeout (timeout s) s) = []"
  proof (cases "timeout s")
    case None
    with assms have "pending s = []" by (cases "pending s") (auto simp: debounce_idle_def)
    with None show ?thesis by (simp add: clearTimeout_def)
  next
    case (Some i)
    with assms show ?thesis by (auto simp: clearTimeout_def debounce_idle_def filter_empty_conv)
  qed
  then have "clearTimeout (timeout s) s = s\<lparr>pending := []\<rparr>"
    by (cases "timeout s") (simp_all add: clearTimeout_def)
  then show ?thesis
    by (simp add: executedFunction_def Let_def setTimeout_def)
qed

lemma advance_nothing_due:
  assumes "\<forall>t \<in> set (pending s). clock s + d < fst (snd t)"
  shows "advance exec d s = s\<lparr>clock := clock s + d\<rparr>"
proof -
  have "filter (\<lambda>t. fst (snd t) \<le> clock s + d) (pending s) = []"
    using assms by (auto simp: filter_empty_conv)
  then show ?thesis by (simp add: advance_def due_timers_def Let_def)
qed

lemma advance_single_due:
  assumes "pending s = [t]" and "fst (snd t) \<le> clock s + d"
  shows "advance exec d s =
     (exec (snd (snd t)) (s\<lparr>pending := [], clock := max (clock s) (fst (snd t))\<rparr>))\<lparr>clock := clock s + d\<rparr>"
  using assms by (simp add: advance_def due_timers_def Let_def fire_def)

lemma quiet_call:
  assumes "debounce_idle s" and "d < wait"
  shows "advance exec d (executedFunction mk wait a s) =
     s\<lparr>pending := [(nextTimer s, clock s + wait, mk a)], nextTimer := Suc (nextTimer s),
       timeout := Some (nextTimer s), clock := clock s + d\<rparr>"
  using assms(2)
  by (simp add: executedFunction_idle[OF assms(1)] advance_nothing_due)

lemma last_call:
  assumes "debounce_idle s" and "wait \<le> d"
  shows "advance exec d (executedFunction mk wait a s) =
     (exec (mk a) (s\<lparr>pending := [], nextTimer := Suc (nextTimer s),
        timeout := Some (nextTimer s), clock := clock s + wait\<rparr>))\<lparr>clock := clock s + d\<rparr>"
proof -
  let ?s = "executedFunction mk wait a s"
  have p: "pending ?s = [(nextTimer s, clock s + wait, mk a)]" "clock ?s = clock s"
    by (simp_all add: executedFunction_idle[OF assms(1)])
  have "fst (snd (nextTimer s, clock s + wait, mk a)) \<le> clock ?s + d"
    using assms(2) by (simp add: p)
  from advance_single_due[OF p(1) this, of exec]
  have "advance exec d ?s =
     (exec (mk a) (?s\<lparr>pending := [], clock := clock s + wait\<rparr>))\<lparr>clock := clock s + d\<rparr>"
    by (simp add: p)
  moreover have "?s\<lparr>pending := [], clock := clock s + wait\<rparr> =
      s\<lparr>pending := [], nextTimer := Suc (nextTimer s),
        timeout := Some (nextTimer s), clock := clock s + wait\<rparr>"
    unfolding executedFunction_idle[OF assms(1)] by (cases s) simp
  ultimately show ?thesis by simp
qed

lemma quiet_call_idle:
  assumes "debounce_idle s" and "d < wait"
  shows "debounce_idle (advance exec d (executedFunction mk wait a s))"
  by (simp add: quiet_call[OF assms] debounce_idle_def)

lemma burst_collapse:
  assumes "debounce_idle s" and "xs \<noteq> []"
    and "\<forall>x \<in> set (butlast xs). snd x < wait" and "wait \<le> snd (last xs)"
  shows "burst exec mk wait xs s =
     (exec (mk (fst (last xs)))
        (s\<lparr>pending := [], nextTimer := nextTimer s + length xs,
           timeout := Some (nextTimer s + length xs - 1),
           clock := clock s + sum_list (map snd (butlast xs)) + wait\<rparr>))
       \<lparr>clock := clock s + sum_list (map snd xs)\<rparr>"
  using assms
proof (induction xs arbitrary: s)
  case Nil
  then show ?case by simp
next
  case (Cons x xs)
  obtain a d where x: "x = (a, d)" by (cases x)
  show ?case
  proof (cases "xs = []")
    case True
    then show ?thesis using Cons.prems x by (simp add: last_call)
  next
    case False
    then have d: "d < wait" using Cons.prems(3) x by simp
    let ?s = "advance exec d (executedFunction mk wait a s)"
    have idle: "debounce_idle ?s" using Cons.prems(1) d by (rule quiet_call_idle)
    have rest: "\<forall>x \<in> set (butlast xs). snd x < wait" "wait \<le> snd (last xs)"
      using Cons.prems False by simp_all
    have f: "nextTimer ?s = Suc (nextTimer s)" "clock ?s = clock s + d"
      by (simp_all add: quiet_call[OF Cons.prems(1) d])
    have "burst exec mk wait (x # xs) s = burst exec mk wait xs ?s" by (simp add: x)
    also have "\<dots> = (exec (mk (fst (last xs)))
        (?s\<lparr>pending := [], nextTimer := nextTimer ?s + length xs,
           timeout := Some (nextTimer ?s + length xs - 1),
           clock := clock ?s + sum_list (map snd (butlast xs)) + wait\<rparr>))
       \<lparr>clock := clock ?s + sum_list (map snd xs)\<rparr>"
      by (rule Cons.IH[OF idle False rest])
    also have "\<dots> = (exec (mk (fst (last (x # xs))))
        (s\<lparr>pending := [], nextTimer := nextTimer s + length (x # xs),
           timeout := Some (nextTimer s + length (x # xs) - 1),
           clock := clock s + sum_list (map snd (butlast (x # xs))) + wait\<rparr>))
       \<lparr>clock := clock s + sum_list (map snd (x # xs))\<rparr>"
      using False by (simp add: quiet_call[OF Cons.prems(1) d] x add.assoc)
    finally show ?thesis .
  qed
qed

lemma run_callback_observing: "observing (run_callback cb s) = observing s"
proof (cases cb)
  case (Later args)
  have "dom_frame (clearTimeout (timeout s) s) (scanAndHighlight (clearTimeout (timeout s) s))"
    by (rule scanAndHighlight_frame)
  then show ?thesis using Later by (simp add: run_callback_def later_def dom_frame_def)
qed (simp_all add: run_callback_def remove_node_def Let_def split: option.splits)

lemma fire_observing: "observing (fire run_callback t s) = observing s"
  by (simp add: fire_def run_callback_observing)

lemma advance_observing: "observing (advance run_callback d s) = observing s"
proof -
  have "observing (foldl (\<lambda>st t. fire run_callback t st) s ts) = observing s" for ts
    by (induction ts rule: rev_induct) (simp_all add: fire_observing)
  then show ?thesis by (simp add: advance_def Let_def)
qed

lemma debounced_observing: "observing (debouncedScanAndHighlight args s) = observing s"
  by (simp add: debouncedScanAndHighlight_def executedFunction_def Let_def setTimeout_def
      split: prod.splits)

lemma run_Cons: "run (e # es) s = run es (step e s)"
  by (simp add: run_def)

lemma mutation_burst_run:
  assumes "observing s" and "\<forall>x \<in> set xs. hasRelevantChanges (fst x)"
  shows "run (mutation_burst xs) s = burst run_callback Later 100 (map (\<lambda>x. ([], snd x)) xs) s"
  using assms
proof (induction xs arbitrary: s)
  case Nil
  then show ?case by (simp add: mutation_burst_def run_def)
next
  case (Cons x xs)
  let ?s = "advance run_callback (snd x) (debouncedScanAndHighlight [] s)"
  have o: "observing ?s" using Cons.prems(1) by (simp add: advance_observing debounced_observing)
  have "run (mutation_burst (x # xs)) s = run (mutation_burst xs) ?s"
    using Cons.prems
    by (simp add: mutation_burst_def run_Cons step_def observer_callback_def)
  also have "\<dots> = burst run_callback Later 100 (map (\<lambda>x. ([], snd x)) xs) ?s"
    using Cons.prems(2) by (intro Cons.IH[OF o]) simp
  finally show ?case by (simp add: debouncedScanAndHighlight_def)
qed

lemma later_idle:
  assumes "pending s = []"
  shows "later func args s = func args s"
proof -
  have "s\<lparr>pending := pending s\<rparr> = s" by simp
  then have e: "s\<lparr>pending := []\<rparr> = s" by (simp only: assms)
  have "clearTimeout (timeout s) s = s\<lparr>pending := []\<rparr> \<or> clearTimeout (timeout s) s = s"
    using assms by (cases "timeout s") (simp_all add: clearTimeout_def)
  then have "clearTimeout (timeout s) s = s" unfolding e by blast
  then show ?thesis by (simp only: later_def)
qed

lemma executedFunction_fields:
  "pending (executedFunction mk wait a s) =
     filter (\<lambda>t. Some (fst t) \<noteq> timeout s) (pending s) @ [(nextTimer s, clock s + wait, mk a)]"
  "timeout (executedFunction mk wait a s) = Some (nextTimer s)"
  by (cases "timeout s"; simp add: executedFunction_def Let_def setTimeout_def clearTimeout_def)+

section \<open>The membership invariant in every reachable state\<close>

lemma ui_frame_refl: "ui_frame s s"
  by (simp add: ui_frame_def)

lemma ui_frame_trans: "ui_frame s t \<Longrightarrow> ui_frame t u \<Longrightarrow> ui_frame s u"
  by (simp add: ui_frame_def)

lemma ui_frame_inv: "ui_frame s s' \<Longrightarrow> membership_inv s' = membership_inv s"
  by (rule membership_inv_cong) (simp_all add: ui_frame_def)

lemma ui_frame_foldl:
  assumes "\<And>x st. ui_frame st (f x st)"
  shows "ui_frame s (foldl (\<lambda>st x. f x st) s xs)"
proof (induction xs rule: rev_induct)
  case Nil
  then show ?case by (simp add: ui_frame_refl)
next
  case (snoc y ys)
  then show ?case using assms ui_frame_trans by fastforce
qed

lemma ui_frame_prims:
  "ui_frame s (log c s)"
  "ui_frame s (console_error m s)"
  "ui_frame s (clearTimeout h s)"
  "ui_frame s (snd (setTimeout cb d s))"
  "ui_frame s (remove_node n s)"
  "ui_frame s (remove_by_id i s)"
  "ui_frame s (appendChild a s)"
  "ui_frame s (snd (createElement s))"
  "ui_frame s (clear_and_delete t s)"
  "ui_frame s (copy_finish tip s)"
  by (simp_all add: ui_frame_def log_def console_error_def clearTimeout_def setTimeout_def
      remove_node_def remove_by_id_def appendChild_def createElement_def clear_and_delete_def
      copy_finish_def split: option.splits)

lemma ui_frame_updates:
  "ui_frame s (s\<lparr>activeTimeouts := a\<rparr>)"
  "ui_frame s (s\<lparr>timeout := h\<rparr>)"
  "ui_frame s (s\<lparr>suspended := fs\<rparr>)"
  "ui_frame s (s\<lparr>pointer := p\<rparr>)"
  "ui_frame s (s\<lparr>document := d\<rparr>)"
  "ui_frame s (s\<lparr>clock := k\<rparr>)"
  "ui_frame s (s\<lparr>pending := ps\<rparr>)"
  "ui_frame s (s\<lparr>observing := b\<rparr>)"
  by (simp_all add: ui_frame_def)

lemma showCopyFeedback_ui_frame: "ui_frame s (showCopyFeedback el t s)"
proof -
  let ?s1 = "remove_by_id ''__testid_copy_feedback__'' (log (ShowCopyFeedback el t) s)"
  have a: "ui_frame s ?s1"
    by (rule ui_frame_trans[OF ui_frame_prims(1) ui_frame_prims(6)])
  have b: "ui_frame ?s1 (foldl (\<lambda>st t. clear_and_delete t st) ?s1 (activeTimeouts ?s1))"
    by (rule ui_frame_foldl) (rule ui_frame_prims)
  show ?thesis
    using ui_frame_trans[OF a b]
    by (simp add: showCopyFeedback_def Let_def createElement_def appendChild_def setTimeout_def
        ui_frame_def)
qed

lemma fallback_ui_frame:
  "\<exists>s'. fallbackCopyTextToClipboard t ex s = Inr s' \<and> ui_frame s s'"
  by (cases ex)
     (simp_all add: fallbackCopyTextToClipboard_def Let_def createElement_def appendChild_def
       execCommand_copy_def console_error_def log_def removeChild_def attached_def remove_node_def
       ui_frame_def)

lemma copy_catch_ui_frame: "\<exists>s'. copy_catch el t ex s = Inr s' \<and> ui_frame s s'"
proof -
  obtain s1 where f: "fallbackCopyTextToClipboard t ex (console_error ''Failed to copy data-testid:'' s) = Inr s1"
    and u: "ui_frame (console_error ''Failed to copy data-testid:'' s) s1"
    using fallback_ui_frame by blast
  have "ui_frame s (showCopyFeedback el t s1)"
    by (rule ui_frame_trans[OF ui_frame_trans[OF ui_frame_prims(2) u] showCopyFeedback_ui_frame])
  then show ?thesis by (simp add: copy_catch_def Let_def f)
qed

lemma copy_start_ui_frame: "ui_frame s (uncaught (copy_start el tip c ex s))"
proof (cases "testid (elements s el)")
  case None
  then show ?thesis by (simp add: copy_start_def uncaught_def ui_frame_refl)
next
  case (Some t)
  show ?thesis
  proof (cases "t = []")
    case True
    then show ?thesis using Some by (simp add: copy_start_def uncaught_def ui_frame_refl)
  next
    case False
    show ?thesis
    proof (cases c)
      case ClipUnavailable
      obtain s' where "copy_catch el t ex s = Inr s'" "ui_frame s s'"
        using copy_catch_ui_frame by blast
      then show ?thesis using Some False ClipUnavailable ui_frame_trans[OF _ ui_frame_prims(10)]
        by (simp add: copy_start_def writeText_def uncaught_def)
    next
      case ClipPromise
      then show ?thesis using Some False
        by (simp add: copy_start_def writeText_def uncaught_def log_def ui_frame_def)
    qed
  qed
qed

lemma copy_resume_ui_frame: "ui_frame s (uncaught (copy_resume fr outcome ex s))"
proof (cases outcome)
  case None
  then show ?thesis
    using ui_frame_trans[OF showCopyFeedback_ui_frame ui_frame_prims(10)]
    by (simp add: copy_resume_def uncaught_def)
next
  case (Some err)
  obtain s' where "copy_catch (frameEl fr) (frameTestId fr) ex s = Inr s'" "ui_frame s s'"
    using copy_catch_ui_frame by blast
  then show ?thesis using Some ui_frame_trans[OF _ ui_frame_prims(10)]
    by (simp add: copy_resume_def uncaught_def)
qed

lemma mouseEnterHandler_ui_frame: "ui_frame s (mouseEnterHandler_body el s)"
  by (simp add: mouseEnterHandler_body_def Let_def createElement_def appendChild_def
      remove_by_id_def remove_node_def ui_frame_def split: option.splits)

lemma run_listener_ui_frame: "ui_frame s (run_listener l c ex s)"
  by (cases l)
     (simp_all add: run_listener_def mouseEnterHandler_ui_frame mouseLeaveHandler_body_def
       tooltipMouseLeave_body_def ui_frame_prims clickHandler_body_def
       tooltipClickHandler_body_def copy_start_ui_frame ui_frame_refl)

lemma dispatch_ui_frame: "ui_frame s (dispatch t ty c ex s)"
  unfolding dispatch_def by (rule ui_frame_foldl) (rule run_listener_ui_frame)

lemma pointer_move_ui_frame: "ui_frame s (pointer_move t s)"
  using ui_frame_trans[OF ui_frame_trans[OF ui_frame_updates(4) dispatch_ui_frame] dispatch_ui_frame]
  by (simp add: pointer_move_def Let_def ui_frame_refl)

lemma settle_ui_frame: "ui_frame s (settle i outcome ex s)"
  using ui_frame_trans[OF ui_frame_updates(3) copy_resume_ui_frame]
  by (simp add: settle_def ui_frame_refl)

lemma debounced_ui_frame: "ui_frame s (debouncedScanAndHighlight args s)"
  by (simp add: debouncedScanAndHighlight_def executedFunction_def Let_def setTimeout_def
      clearTimeout_def ui_frame_def split: option.splits)

lemma observer_callback_ui_frame: "ui_frame s (observer_callback ms s)"
  by (simp add: observer_callback_def debounced_ui_frame ui_frame_refl)

lemma run_callback_inv: "membership_inv s \<Longrightarrow> membership_inv (run_callback cb s)"
proof (cases cb)
  case (Later args)
  assume "membership_inv s"
  then have "membership_inv (clearTimeout (timeout s) s)"
    using ui_frame_inv[OF ui_frame_prims(3)] by simp
  then show ?thesis using Later by (simp add: run_callback_def later_def scanAndHighlight_inv)
next
  case (TooltipLeaveTimer n)
  assume "membership_inv s"
  then show ?thesis using TooltipLeaveTimer ui_frame_inv[OF ui_frame_prims(5)]
    by (simp add: run_callback_def)
next
  case ElementLeaveTimer
  assume "membership_inv s"
  then show ?thesis using ElementLeaveTimer ui_frame_inv[OF ui_frame_prims(5)]
    by (simp add: run_callback_def split: option.splits)
next
  case (FeedbackTimer n i)
  assume "membership_inv s"
  moreover have "ui_frame s (run_callback (FeedbackTimer n i) s)"
    by (simp add: run_callback_def Let_def remove_node_def ui_frame_def)
  ultimately show ?thesis using FeedbackTimer ui_frame_inv by blast
qed

lemma fire_inv: "membership_inv s \<Longrightarrow> membership_inv (fire run_callback t s)"
proof -
  assume i: "membership_inv s"
  have "ui_frame s (s\<lparr>pending := removeAll t (pending s), clock := max (clock s) (fst (snd t))\<rparr>)"
    by (simp add: ui_frame_def)
  then have "membership_inv (s\<lparr>pending := removeAll t (pending s), clock := max (clock s) (fst (snd t))\<rparr>)"
    using i ui_frame_inv by blast
  then show ?thesis using i by (simp add: fire_def run_callback_inv)
qed

lemma advance_inv: "membership_inv s \<Longrightarrow> membership_inv (advance run_callback d s)"
proof -
  assume i: "membership_inv s"
  have "membership_inv (foldl (\<lambda>st t. fire run_callback t st) s ts)" for ts
    using i by (intro foldl_preserve[where P = membership_inv] fire_inv)
  then show ?thesis using ui_frame_inv[OF ui_frame_updates(6)] by (simp add: advance_def Let_def)
qed

lemma host_update_inv:
  assumes "\<And>e. listeners (f e) = listeners e"
  shows "membership_inv (update_element el f s) = membership_inv s"
proof -
  have "listeners (elements (update_element el f s) x) = listeners (elements s x)" for x
    using assms by (simp add: update_element_def)
  then show ?thesis
    by (simp add: membership_inv_def system_listeners_def)
       (simp add: update_element_def)
qed

lemma step_inv: "membership_inv s \<Longrightarrow> membership_inv (step e s)"
proof (cases e)
  case (Elapse d)
  assume "membership_inv s"
  then show ?thesis using Elapse by (simp add: step_def advance_inv)
next
  case (Mutations ms)
  assume "membership_inv s"
  then show ?thesis using Mutations ui_frame_inv[OF observer_callback_ui_frame]
    by (simp add: step_def)
next
  case (PointerTo t)
  assume "membership_inv s"
  then show ?thesis using PointerTo ui_frame_inv[OF pointer_move_ui_frame] by (simp add: step_def)
next
  case (Click t c ex)
  assume "membership_inv s"
  then show ?thesis using Click ui_frame_inv[OF dispatch_ui_frame] by (simp add: step_def)
next
  case (Settle i outcome ex)
  assume "membership_inv s"
  then show ?thesis using Settle ui_frame_inv[OF settle_ui_frame] by (simp add: step_def)
next
  case BeforeUnload
  assume "membership_inv s"
  then show ?thesis using BeforeUnload by (simp add: step_def beforeunload_inv)
next
  case (HostSetDocument d)
  assume "membership_inv s"
  then show ?thesis using HostSetDocument ui_frame_inv[OF ui_frame_updates(5)]
    by (simp add: step_def)
next
  case (HostSetTestid el v)
  assume "membership_inv s"
  then show ?thesis using HostSetTestid by (simp add: step_def host_update_inv)
next
  case (HostSetClassList el cs)
  assume "membership_inv s"
  then show ?thesis using HostSetClassList by (simp add: step_def host_update_inv)
qed

lemma reachable_membership_inv: "reachable s \<Longrightarrow> membership_inv s"
  by (induction rule: reachable.induct) (simp_all add: boot_inv step_inv)

lemma run_callback_schedules_nothing:
  "set (pending (run_callback cb s)) \<subseteq> set (pending s) \<and>
   nextTimer (run_callback cb s) = nextTimer s"
proof (cases cb)
  case (Later args)
  have "dom_frame (clearTimeout (timeout s) s) (scanAndHighlight (clearTimeout (timeout s) s))"
    by (rule scanAndHighlight_frame)
  then show ?thesis using Later
    by (auto simp: run_callback_def later_def dom_frame_def clearTimeout_def split: option.splits)
qed (simp_all add: run_callback_def remove_node_def Let_def split: option.splits)

section \<open>What the teardown achieves\<close>

lemma cleanup_all_untracks:
  assumes inv: "membership_inv s"
  shows "trackedElements (foldl (\<lambda>st el. cleanupElement el st) s (trackedElements s)) = []"
proof -
  let ?s1 = "foldl (\<lambda>st el. cleanupElement el st) s (trackedElements s)"
  have gone: "el \<notin> set (trackedElements ?s1)" if "el \<in> set (trackedElements s)" for el
  proof (rule foldl_establish_from[where P = membership_inv
        and Q = "\<lambda>st::state. el \<notin> set (trackedElements st)" and x = el])
    fix y st assume "membership_inv st"
    then show "membership_inv (cleanupElement y st)" by (rule cleanupElement_inv)
  next
    fix st assume i: "membership_inv st"
    show "el \<notin> set (trackedElements (cleanupElement el st))"
    proof (cases "elementData st el")
      case None
      then show ?thesis using i by (simp add: cleanupElement_def membership_inv_def)
    next
      case (Some h)
      then show ?thesis using cleanupElement_entry by simp
    qed
  next
    fix y and st :: state assume "el \<notin> set (trackedElements st)"
    then show "el \<notin> set (trackedElements (cleanupElement y st))"
      using cleanupElement_tracked_subset by blast
  next
    show "membership_inv s \<or> el \<notin> set (trackedElements s)" using inv by simp
    show "el \<in> set (trackedElements s)" by (rule that)
  qed
  have sub: "set (trackedElements ?s1) \<subseteq> set (trackedElements s)"
    by (rule foldl_preserve[where P = "\<lambda>st::state. set (trackedElements st) \<subseteq> set (trackedElements s)"])
       (use cleanupElement_tracked_subset in auto)
  show ?thesis
  proof (cases "trackedElements ?s1")
    case Nil
    then show ?thesis .
  next
    case (Cons a as)
    then have a: "a \<in> set (trackedElements ?s1)" by simp
    then have "a \<in> set (trackedElements s)" using sub by (rule subsetD[rotated])
    from gone[OF this] a show ?thesis by contradiction
  qed
qed

lemma beforeunload_effect:
  assumes inv: "membership_inv s" and fb: "feedback_inv s"
  shows "trackedElements (beforeunload s) = []"
    and "elementData (beforeunload s) el = None"
    and "system_listeners el (beforeunload s) = []"
    and "activeTimeouts (beforeunload s) = []"
    and "filter is_feedback_timer (pending (beforeunload s)) = []"
    and "\<not> observing (beforeunload s)"
    and "feedback_artifacts (beforeunload s) = []"
proof -
  define s1 where "s1 = foldl (\<lambda>st el. cleanupElement el st) s (trackedElements s)"
  define s2 where "s2 = foldl (\<lambda>st t. clearTimeout (Some t) st) s1 (activeTimeouts s1)"
  define s5 where "s5 = remove_by_id ''__testid_tooltip__'' (s2\<lparr>activeTimeouts := [], observing := False\<rparr>)"
  have bu: "beforeunload s = remove_by_id ''__testid_copy_feedback__'' s5"
    by (simp add: beforeunload_def Let_def s1_def s2_def s5_def)
  have t1: "trackedElements s1 = []" unfolding s1_def using inv by (rule cleanup_all_untracks)
  have i1: "membership_inv s1" unfolding s1_def using inv by (rule cleanup_all_inv)
  have f1: "feedback_inv s1"
    using fb feedback_inv_dom_frame[OF cleanup_all_frame, of s "trackedElements s"]
    by (simp add: s1_def)
  note c = clear_all_fields[of s1 "activeTimeouts s1", folded s2_def]
  note cf = clear_all_feedback_fields[of s1 "activeTimeouts s1", folded s2_def]
  have same: "elements (beforeunload s) = elements s1" "elementData (beforeunload s) = elementData s1"
    "trackedElements (beforeunload s) = trackedElements s1"
    by (simp_all add: bu s5_def c)
  show "trackedElements (beforeunload s) = []" by (simp add: same t1)
  have none: "elementData s1 el = None" using i1 t1 by (simp add: membership_inv_def)
  show "elementData (beforeunload s) el = None" by (simp add: same none)
  show "system_listeners el (beforeunload s) = []"
    using i1 none by (simp add: system_listeners_def same membership_inv_def)
  show "activeTimeouts (beforeunload s) = []" by (simp add: bu s5_def)
  have "filter is_feedback_timer (filter (\<lambda>p. fst p \<notin> set (activeTimeouts s1)) (pending s1)) = []"
    using f1 by (auto simp: feedback_inv_def filter_empty_conv)
  then show "filter is_feedback_timer (pending (beforeunload s)) = []"
    by (simp add: bu s5_def cf)
  show "\<not> observing (beforeunload s)" by (simp add: bu s5_def)
  have "feedback_inv (s2\<lparr>activeTimeouts := []\<rparr>)"
    using f1 cf by (auto simp: feedback_inv_def feedback_artifacts_def distinct_map_filter)
  then have "feedback_inv s5" by (simp add: s5_def remove_by_id_feedback_inv)
  then have "length (feedback_artifacts s5) \<le> 1" by (simp add: feedback_inv_def)
  then show "feedback_artifacts (beforeunload s) = []"
    unfolding bu by (rule remove_feedback_none)
qed

section \<open>Coverage of the scan\<close>




section \<open>Idempotence of the scan\<close>

text \<open>
  Claim C2. A second \<^verbatim>\<open>scanAndHighlight\<close> right after the first, with the document
  unchanged in between, changes nothing: the whole state is the same, so the tracked set
  is the same, and the log of calls is the same, so the second pass issued no
  \<^verbatim>\<open>addEventListener\<close>, \<^verbatim>\<open>classList.add\<close>, \<^verbatim>\<open>elementData.set\<close>,
  \<^verbatim>\<open>removeEventListener\<close>, \<^verbatim>\<open>classList.remove\<close> or \<^verbatim>\<open>delete\<close> at all.
\<close>

theorem scanAndHighlight_idempotent: "scanAndHighlight (scanAndHighlight s) = scanAndHighlight s"
proof -
  define els where "els = querySelectorAll_testid s"
  define s1 where "s1 = foldl (\<lambda>st el. highlightElement el st) s els"
  define s2 where "s2 = foldl (\<lambda>st el. cleanup_step els el st) s1 (trackedElements s1)"
  have scan: "scanAndHighlight s = s2"
    by (simp add: scanAndHighlight_def Let_def els_def s1_def s2_def)
  have doc1: "document s1 = document s" by (simp add: s1_def highlight_all_document)
  have doc2: "document s2 = document s" by (simp add: s2_def cleanup_all_document doc1)
  have els2: "querySelectorAll_testid s2 = els"
    unfolding els_def
  proof (rule qsa_cong)
    show "document s2 = document s" by (rule doc2)
    show "testid (elements s2 x) = testid (elements s x)" for x
      by (simp add: s2_def s1_def cleanup_all_testid highlight_all_testid)
  qed
  have ne1: "\<forall>x\<in>set els. \<not> eligible x s1"
    unfolding s1_def by (rule highlight_all_none_eligible)
  have ne2: "\<forall>x\<in>set els. \<not> eligible x s2"
  proof
    fix x assume x: "x \<in> set els"
    then have "x \<in> set (document s1)" using qsa_in_document doc1 by (simp add: els_def)
    from cleanup_all_current[OF x this, of "trackedElements s1"] ne1 x
    show "\<not> eligible x s2" by (simp add: eligible_def s2_def)
  qed
  have h: "foldl (\<lambda>st el. highlightElement el st) s2 els = s2"
    using ne2 by (rule highlight_all_fixed)
  have "\<forall>x\<in>set (trackedElements s1). \<not> stale els x s2"
    unfolding s2_def by (rule cleanup_all_none_stale)
  moreover have "set (trackedElements s2) \<subseteq> set (trackedElements s1)"
    unfolding s2_def by (rule cleanup_all_tracked_subset)
  ultimately have "\<forall>x\<in>set (trackedElements s2). \<not> stale els x s2" by blast
  then have c: "foldl (\<lambda>st el. cleanup_step els el st) s2 (trackedElements s2) = s2"
    by (rule cleanup_all_fixed)
  have "scanAndHighlight s2 = s2"
    by (simp add: scanAndHighlight_def[of s2] Let_def els2 h c)
  then show ?thesis by (simp add: scan)
qed

theorem scanAndHighlight_idempotent_witness:
  "scanAndHighlight (scanAndHighlight (fresh_page login_elements [0, 1, 2])) =
     scanAndHighlight (fresh_page login_elements [0, 1, 2]) \<and>
   trackedElements (scanAndHighlight (scanAndHighlight (fresh_page login_elements [0, 1, 2]))) =
     trackedElements (scanAndHighlight (fresh_page login_elements [0, 1, 2])) \<and>
   calls (scanAndHighlight (scanAndHighlight (fresh_page login_elements [0, 1, 2]))) =
     calls (scanAndHighlight (fresh_page login_elements [0, 1, 2]))"
  using scanAndHighlight_idempotent [of "fresh_page login_elements [0, 1, 2]"] by simp

section \<open>Cleanup of removed elements\<close>



section \<open>Collapse of a burst of calls\<close>

text \<open>
  Claim C4. Take a state in which no timer is pending except, possibly, an earlier call
  of the same debounced function, and \<open>N \<ge> 1\<close> calls of the debounced function, each
  less than \<open>wait\<close> after the one before, followed by at least \<open>wait\<close> without a call.
  Then the wrapped function has run exactly once, with the arguments of the last call,
  at the time of the last call plus \<open>wait\<close>: the whole burst equals that single run on
  the starting state, up to the timer bookkeeping. Each call removes the timer of the
  call before (the one \<^verbatim>\<open>timeout\<close> refers to) and schedules a new one \<open>wait\<close> later.
  For the script: \<open>N\<close> relevant mutation notifications, each less than 100 ms after the
  one before, followed by 100 ms of quiet, amount to exactly one \<^verbatim>\<open>scanAndHighlight\<close>.
\<close>

theorem debounce_collapse:
  "(debounce_idle s \<and> xs \<noteq> [] \<and> (\<forall>x \<in> set (butlast xs). snd x < wait) \<and> wait \<le> snd (last xs) \<longrightarrow>
      burst (later func) (\<lambda>args. args) wait xs s =
        (func (fst (last xs))
           (s\<lparr>pending := [], nextTimer := nextTimer s + length xs,
              timeout := Some (nextTimer s + length xs - 1),
              clock := clock s + sum_list (map snd (butlast xs)) + wait\<rparr>))
          \<lparr>clock := clock s + sum_list (map snd xs)\<rparr>) \<and>
   pending (executedFunction mk wait a s) =
     filter (\<lambda>t. Some (fst t) \<noteq> timeout s) (pending s) @ [(nextTimer s, clock s + wait, mk a)] \<and>
   timeout (executedFunction mk wait a s) = Some (nextTimer s) \<and>
   (debounce_idle u \<and> observing u \<and> ms \<noteq> [] \<and> (\<forall>m \<in> set ms. hasRelevantChanges (fst m)) \<and>
    (\<forall>m \<in> set (butlast ms). snd m < 100) \<and> 100 \<le> snd (last ms) \<longrightarrow>
      run (mutation_burst ms) u =
        (scanAndHighlight
           (u\<lparr>pending := [], nextTimer := nextTimer u + length ms,
              timeout := Some (nextTimer u + length ms - 1),
              clock := clock u + sum_list (map snd (butlast ms)) + 100\<rparr>))
          \<lparr>clock := clock u + sum_list (map snd ms)\<rparr>)"
proof (intro conjI impI)
  assume a: "debounce_idle s \<and> xs \<noteq> [] \<and> (\<forall>x \<in> set (butlast xs). snd x < wait) \<and>
    wait \<le> snd (last xs)"
  then have "burst (later func) (\<lambda>args. args) wait xs s =
     (later func (fst (last xs))
        (s\<lparr>pending := [], nextTimer := nextTimer s + length xs,
           timeout := Some (nextTimer s + length xs - 1),
           clock := clock s + sum_list (map snd (butlast xs)) + wait\<rparr>))
       \<lparr>clock := clock s + sum_list (map snd xs)\<rparr>"
    by (intro burst_collapse) simp_all
  then show "burst (later func) (\<lambda>args. args) wait xs s =
        (func (fst (last xs))
           (s\<lparr>pending := [], nextTimer := nextTimer s + length xs,
              timeout := Some (nextTimer s + length xs - 1),
              clock := clock s + sum_list (map snd (butlast xs)) + wait\<rparr>))
          \<lparr>clock := clock s + sum_list (map snd xs)\<rparr>"
    by (simp add: later_idle)
next
  show "pending (executedFunction mk wait a s) =
     filter (\<lambda>t. Some (fst t) \<noteq> timeout s) (pending s) @ [(nextTimer s, clock s + wait, mk a)]"
    by (rule executedFunction_fields)
  show "timeout (executedFunction mk wait a s) = Some (nextTimer s)"
    by (rule executedFunction_fields)
next
  assume a: "debounce_idle u \<and> observing u \<and> ms \<noteq> [] \<and>
    (\<forall>m \<in> set ms. hasRelevantChanges (fst m)) \<and>
    (\<forall>m \<in> set (butlast ms). snd m < 100) \<and> 100 \<le> snd (last ms)"
  let ?xs = "map (\<lambda>x. ([]::nat list, snd x)) ms"
  have r: "run (mutation_burst ms) u = burst run_callback Later 100 ?xs u"
    using a by (intro mutation_burst_run) simp_all
  have "burst run_callback Later 100 ?xs u =
     (run_callback (Later (fst (last ?xs)))
        (u\<lparr>pending := [], nextTimer := nextTimer u + length ?xs,
           timeout := Some (nextTimer u + length ?xs - 1),
           clock := clock u + sum_list (map snd (butlast ?xs)) + 100\<rparr>))
       \<lparr>clock := clock u + sum_list (map snd ?xs)\<rparr>"
    using a by (intro burst_collapse) (auto simp: map_butlast[symmetric] last_map)
  moreover have "map snd (butlast ?xs) = map snd (butlast ms)" "map snd ?xs = map snd ms"
    by (simp_all add: map_butlast[symmetric] comp_def)
  ultimately show "run (mutation_burst ms) u =
        (scanAndHighlight
           (u\<lparr>pending := [], nextTimer := nextTimer u + length ms,
              timeout := Some (nextTimer u + length ms - 1),
              clock := clock u + sum_list (map snd (butlast ms)) + 100\<rparr>))
          \<lparr>clock := clock u + sum_list (map snd ms)\<rparr>"
    using r by (simp add: run_callback_def later_idle comp_def)
qed

theorem debounce_collapse_witness:
  "debounce_idle shrunk_page \<and> observing shrunk_page \<and>
   hasRelevantChanges [testid_mutation] \<and>
   run (mutation_burst [([testid_mutation], 30), ([testid_mutation], 99), ([testid_mutation], 100)])
       shrunk_page =
     (scanAndHighlight
        (shrunk_page\<lparr>pending := [], nextTimer := 4, timeout := Some 3, clock := 229\<rparr>))
       \<lparr>clock := 229\<rparr> \<and>
   debounce_idle quiet_probe \<and>
   burst (later record_call) (\<lambda>args. args) 100 [(''a'', 30), (''b'', 99), (''c'', 100)]
       quiet_probe =
     \<lparr>pending = [], nextTimer = 4, clock = 229, timeout = Some 3, executed = [''c'']\<rparr>"
proof -
  let ?ms = "[([testid_mutation], 30), ([testid_mutation], 99), ([testid_mutation], 100::nat)]"
  let ?xs = "[(''a'', 30), (''b'', 99), (''c'', 100::nat)]"
  have i: "debounce_idle shrunk_page" by code_simp
  have o: "observing shrunk_page" by code_simp
  have r0: "hasRelevantChanges [testid_mutation]" by code_simp
  then have r: "\<forall>m \<in> set ?ms. hasRelevantChanges (fst m)" by simp
  have n: "nextTimer shrunk_page = 1" "clock shrunk_page = 0" by code_simp+
  have g: "?ms \<noteq> [] \<and> (\<forall>m \<in> set (butlast ?ms). snd m < 100) \<and> 100 \<le> snd (last ?ms)"
    by simp
  have i': "debounce_idle quiet_probe" by (simp add: debounce_idle_def quiet_probe_def)
  have g': "?xs \<noteq> [] \<and> (\<forall>x \<in> set (butlast ?xs). snd x < 100) \<and> 100 \<le> snd (last ?xs)"
    by simp
  note t = debounce_collapse [where s = quiet_probe and xs = ?xs and wait = 100
      and func = record_call and u = shrunk_page and ms = ?ms and mk = "\<lambda>args. args"
      and a = "''a''"]
  have "run (mutation_burst ?ms) shrunk_page =
     (scanAndHighlight
        (shrunk_page\<lparr>pending := [], nextTimer := nextTimer shrunk_page + length ?ms,
           timeout := Some (nextTimer shrunk_page + length ?ms - 1),
           clock := clock shrunk_page + sum_list (map snd (butlast ?ms)) + 100\<rparr>))
       \<lparr>clock := clock shrunk_page + sum_list (map snd ?ms)\<rparr>"
    by (rule mp [OF t [THEN conjunct2, THEN conjunct2, THEN conjunct2]]) (simp add: i o r)
  moreover have "nextTimer shrunk_page + length ?ms = 4"
    "nextTimer shrunk_page + length ?ms - 1 = 3"
    "clock shrunk_page + sum_list (map snd (butlast ?ms)) + 100 = 229"
    "clock shrunk_page + sum_list (map snd ?ms) = 229"
    by (simp_all add: n)
  ultimately have a: "run (mutation_burst ?ms) shrunk_page =
     (scanAndHighlight (shrunk_page\<lparr>pending := [], nextTimer := 4, timeout := Some 3, clock := 229\<rparr>))
       \<lparr>clock := 229\<rparr>"
    by (simp only:)
  have "burst (later record_call) (\<lambda>args. args) 100 ?xs quiet_probe =
     (record_call (fst (last ?xs))
        (quiet_probe\<lparr>pending := [], nextTimer := nextTimer quiet_probe + length ?xs,
           timeout := Some (nextTimer quiet_probe + length ?xs - 1),
           clock := clock quiet_probe + sum_list (map snd (butlast ?xs)) + 100\<rparr>))
       \<lparr>clock := clock quiet_probe + sum_list (map snd ?xs)\<rparr>"
    by (rule mp [OF t [THEN conjunct1]]) (simp add: i')
  then have b: "burst (later record_call) (\<lambda>args. args) 100 ?xs quiet_probe =
     \<lparr>pending = [], nextTimer = 4, clock = 229, timeout = Some 3, executed = [''c'']\<rparr>"
    by (simp add: quiet_probe_def record_call_def)
  from i o r0 a i' b show ?thesis by blast
qed

section \<open>One feedback artifact\<close>



section \<open>Teardown and the timers that are not registered\<close>

text \<open>
  Claim C6 asks the \<^verbatim>\<open>beforeunload\<close> listener to clear every pending timer of the
  script. The listener does detach every tracked element, clear the feedback timers,
  disconnect the observer and remove the feedback artifact (\<open>beforeunload_effect\<close>), but
  only the timers in \<^verbatim>\<open>activeTimeouts\<close> are cleared, and only
  \<^verbatim>\<open>showCopyFeedback\<close> registers its timer there. On the example page, a relevant
  mutation followed by the unload leaves the timer of the debounced scan pending, with
  nothing tracked; when that timer fires 100 ms later, elements 0 and 2 are tracked
  again. A pointer that has left element 0 before the unload leaves the timer of
  \<^verbatim>\<open>mouseLeaveHandler\<close> pending as well.
\<close>

theorem beforeunload_leaves_timers:
  "pending (run [Mutations [testid_mutation], BeforeUnload] (boot login_elements [0, 1, 2])) =
     [(1, 100, Later [])] \<and>
   trackedElements (run [Mutations [testid_mutation], BeforeUnload] (boot login_elements [0, 1, 2])) =
     [] \<and>
   trackedElements
     (run [Mutations [testid_mutation], BeforeUnload, Elapse 100] (boot login_elements [0, 1, 2])) =
     [0, 2] \<and>
   pending (run [PointerTo (OverElement 0), PointerTo Elsewhere, BeforeUnload]
              (boot login_elements [0, 1, 2])) =
     [(1, 100, ElementLeaveTimer)]"
  by code_simp

section \<open>The tooltip under the pointer\<close>

text \<open>
  Claim C7 asks that no delayed removal takes the tooltip away while the pointer is over
  it. The timer of \<^verbatim>\<open>mouseLeaveHandler\<close> checks \<^verbatim>\<open>:hover\<close>; the timer set by the
  tooltip's own \<^verbatim>\<open>mouseleave\<close> listener does not, and the tooltip's \<^verbatim>\<open>mouseenter\<close>
  listener is empty. On the example page: the pointer enters element 0 (tooltip 0
  appears), moves onto the tooltip and stays for 100 ms (the element's timer fires and
  leaves the tooltip), leaves the tooltip, comes back onto it 50 ms later and stays.
  After 49 ms more the tooltip is there, under the pointer; one millisecond later the
  tooltip's timer fires and removes it, with the pointer still over it.
\<close>

theorem tooltip_removed_under_pointer:
  "map node (body (run [PointerTo (OverElement 0), PointerTo (OverArtifact 0), Elapse 100,
                         PointerTo Elsewhere, Elapse 50, PointerTo (OverArtifact 0), Elapse 49]
                     (boot login_elements [0, 1, 2]))) = [0] \<and>
   pointer (run [PointerTo (OverElement 0), PointerTo (OverArtifact 0), Elapse 100,
                 PointerTo Elsewhere, Elapse 50, PointerTo (OverArtifact 0), Elapse 49]
             (boot login_elements [0, 1, 2])) = OverArtifact 0 \<and>
   body (run [PointerTo (OverElement 0), PointerTo (OverArtifact 0), Elapse 100,
              PointerTo Elsewhere, Elapse 50, PointerTo (OverArtifact 0), Elapse 49, Elapse 1]
          (boot login_elements [0, 1, 2])) = [] \<and>
   pointer (run [PointerTo (OverElement 0), PointerTo (OverArtifact 0), Elapse 100,
                 PointerTo Elsewhere, Elapse 50, PointerTo (OverArtifact 0), Elapse 49, Elapse 1]
             (boot login_elements [0, 1, 2])) = OverArtifact 0"
  by code_simp

section \<open>Copy actions end with one feedback\<close>



section \<open>The membership invariant after every operation\<close>

text \<open>
  Claim C9. The membership invariant (an element is in \<^verbatim>\<open>trackedElements\<close> exactly when
  it has an entry in \<^verbatim>\<open>elementData\<close>, and the listeners of this script on it are
  exactly the three of that entry, none when there is no entry) is kept by each of
  \<^verbatim>\<open>highlightElement\<close>, \<^verbatim>\<open>cleanupElement\<close>, \<^verbatim>\<open>scanAndHighlight\<close> and the
  \<^verbatim>\<open>beforeunload\<close> teardown, and by every event of the page. It holds when the script
  has started (\<open>boot_inv\<close>), hence in every reachable state
  (\<open>reachable_membership_inv\<close>).
\<close>

theorem membership_invariant:
  assumes "membership_inv s"
  shows "membership_inv (highlightElement el s) \<and> membership_inv (cleanupElement el s) \<and>
     membership_inv (scanAndHighlight s) \<and> membership_inv (beforeunload s) \<and>
     membership_inv (step e s)"
  using assms
  by (simp add: highlightElement_inv cleanupElement_inv scanAndHighlight_inv beforeunload_inv
      step_inv)

theorem membership_invariant_witness:
  "membership_inv (boot login_elements [0, 1, 2]) \<and>
   membership_inv (highlightElement 0 (boot login_elements [0, 1, 2])) \<and>
   membership_inv (cleanupElement 0 (boot login_elements [0, 1, 2])) \<and>
   membership_inv (scanAndHighlight (boot login_elements [0, 1, 2])) \<and>
   membership_inv (beforeunload (boot login_elements [0, 1, 2])) \<and>
   membership_inv (step (Click (OverElement 0) ClipPromise ExecThrows)
     (boot login_elements [0, 1, 2]))"
proof -
  have h: "membership_inv (boot login_elements [0, 1, 2])"
    by (rule boot_inv) (rule login_elements_host_only)
  from h membership_invariant [OF h, of 0 "Click (OverElement 0) ClipPromise ExecThrows"]
  show ?thesis by (rule conjI)
qed

section \<open>cleanupElement without a side-table entry\<close>

text \<open>
  Claim C10. \<^verbatim>\<open>cleanupElement\<close> on an element without an entry in \<^verbatim>\<open>elementData\<close>
  returns at its first line: the state afterwards is the state before, so no listener is
  removed, the class list is untouched, the tracked set is unchanged and nothing is
  logged. The function has no failing branch in any state.
\<close>

theorem cleanupElement_unannotated_noop:
  "elementData s el = None \<Longrightarrow> cleanupElement el s = s"
  by (simp add: cleanupElement_def)

theorem cleanupElement_unannotated_noop_witness:
  "elementData (boot login_elements [0, 1, 2]) 1 = None \<and>
   cleanupElement 1 (boot login_elements [0, 1, 2]) = boot login_elements [0, 1, 2]"
proof -
  have h: "elementData (boot login_elements [0, 1, 2]) 1 = None" by code_simp
  from h cleanupElement_unannotated_noop [OF h] show ?thesis by (rule conjI)
qed

end
